theory Spec2Isabelle
  imports Main
begin

section \<open>Minesweeper board engine: data model\<close>

text \<open>
  The game is a React component (\<^verbatim>\<open>src/App.tsx\<close>). Its engine functions work on
  \<^verbatim>\<open>Board = Tile[][]\<close>, an array of row arrays of tile objects. Tile objects are
  shared between boards and mutated in place: \<^verbatim>\<open>board.map(row => [...row])\<close> copies the
  row arrays only, so \<^verbatim>\<open>newBoard[row][col]\<close> and \<^verbatim>\<open>board[row][col]\<close> are the same
  object, and the flood fill of \<^verbatim>\<open>revealTile\<close> works only through this sharing (the
  board returned by the recursive call is discarded). Tile objects therefore live in an
  explicit store, and a board is a grid of references into it. Row arrays are written
  only by the function that has just copied them, so a grid of references is a value.
\<close>

record Tile =
  isMine :: bool
  isRevealed :: bool
  isFlagged :: bool
  adjacentMines :: nat

type_synonym ref = nat

type_synonym Board = "ref list list"

text \<open>
  The store maps every reference to a tile object; \<open>nextRef\<close> is the first reference
  not yet handed out, so an object literal allocates at \<open>nextRef\<close>.
\<close>

record Store =
  tiles :: "ref \<Rightarrow> Tile"
  nextRef :: ref

text \<open>
  \<open>TypeError\<close> is what JavaScript throws on reading a property of \<^verbatim>\<open>undefined\<close>
  (an index outside an array). The two \<^verbatim>\<open>while\<close> loops that place mines draw from
  \<^verbatim>\<open>Math.random\<close> until enough cells are hit and may run forever; the random source
  is a finite list of draws, each the pair
  \<^verbatim>\<open>(Math.floor(Math.random() * BOARD_SIZE), Math.floor(Math.random() * BOARD_SIZE))\<close>,
  and \<open>DrawsExhausted\<close> says that the loop had not returned when the list ended.
\<close>

datatype error = TypeError | DrawsExhausted

type_synonym draws = "(nat \<times> nat) list"

definition BOARD_SIZE :: nat where
  "BOARD_SIZE = 10"

definition NUM_MINES :: nat where
  "NUM_MINES = 15"

definition INITIAL_FLAGS :: int where
  "INITIAL_FLAGS = 10"

text \<open>\<^verbatim>\<open>board[row][col]\<close>, with \<open>None\<close> where JavaScript yields \<^verbatim>\<open>undefined\<close> or throws.
  Every use in the source reads a property of the result at once, so \<open>None\<close> always
  becomes a \<open>TypeError\<close>.\<close>

definition tileAt :: "Board \<Rightarrow> int \<Rightarrow> int \<Rightarrow> ref option" where
  "tileAt board row col =
     (if 0 \<le> row \<and> nat row < length board \<and> 0 \<le> col \<and> nat col < length (board ! nat row)
      then Some (board ! nat row ! nat col) else None)"

text \<open>In-place assignment to a field of a tile object, and allocation of a new object.\<close>

definition writeTile :: "Store \<Rightarrow> ref \<Rightarrow> Tile \<Rightarrow> Store" where
  "writeTile s a t = s\<lparr>tiles := (tiles s)(a := t)\<rparr>"

definition newTile :: "Store \<Rightarrow> Tile \<Rightarrow> Store \<times> ref" where
  "newTile s t = (s\<lparr>tiles := (tiles s)(nextRef s := t), nextRef := Suc (nextRef s)\<rparr>, nextRef s)"

text \<open>\<^verbatim>\<open>newBoard[row][col] = a\<close> on a board whose rows have just been copied.\<close>

definition setTile :: "Board \<Rightarrow> nat \<Rightarrow> nat \<Rightarrow> ref \<Rightarrow> Board" where
  "setTile board row col a = board[row := (board ! row)[col := a]]"

definition blankTile :: Tile where
  "blankTile = \<lparr>isMine = False, isRevealed = False, isFlagged = False, adjacentMines = 0\<rparr>"

text \<open>The pairs \<open>(i, j)\<close> visited by the loops \<^verbatim>\<open>for i = -1..1, for j = -1..1\<close> with
  \<^verbatim>\<open>(0, 0)\<close> skipped, in the order of the loops.\<close>

definition offsets :: "(int \<times> int) list" where
  "offsets = [(-1, -1), (-1, 0), (-1, 1), (0, -1), (0, 1), (1, -1), (1, 0), (1, 1)]"

section \<open>Board engine\<close>

subsection \<open>createEmptyBoard\<close>

text \<open>
  \<^verbatim>\<open>Array(BOARD_SIZE).fill(null).map(() => Array(BOARD_SIZE).fill(null).map(() => ({...})))\<close>:
  one new tile object per cell, row by row.
\<close>

fun newTileRow :: "Store \<Rightarrow> nat \<Rightarrow> Store \<times> ref list" where
  "newTileRow s 0 = (s, [])"
| "newTileRow s (Suc n) =
     (let (s1, a) = newTile s blankTile;
          (s2, as) = newTileRow s1 n
      in (s2, a # as))"

fun newTileRows :: "Store \<Rightarrow> nat \<Rightarrow> Store \<times> Board" where
  "newTileRows s 0 = (s, [])"
| "newTileRows s (Suc n) =
     (let (s1, row) = newTileRow s BOARD_SIZE;
          (s2, rows) = newTileRows s1 n
      in (s2, row # rows))"

text \<open>
  The loop \<^verbatim>\<open>while (minesPlaced < NUM_MINES)\<close> of \<^verbatim>\<open>createEmptyBoard\<close>: it sets
  \<^verbatim>\<open>isMine\<close> on the drawn tile object in place.
\<close>

fun seedMines :: "draws \<Rightarrow> Store \<Rightarrow> Board \<Rightarrow> nat \<Rightarrow> error + (draws \<times> Store)" where
  "seedMines ds s newBoard minesPlaced =
     (if minesPlaced < NUM_MINES then
        (case ds of
           [] \<Rightarrow> Inl DrawsExhausted
         | (row, col) # ds' \<Rightarrow>
             (case tileAt newBoard (int row) (int col) of
                None \<Rightarrow> Inl TypeError
              | Some a \<Rightarrow>
                  if \<not> isMine (tiles s a) then
                    seedMines ds' (writeTile s a ((tiles s a)\<lparr>isMine := True\<rparr>)) newBoard
                      (minesPlaced + 1)
                  else seedMines ds' s newBoard minesPlaced))
      else Inr (ds, s))"

subsection \<open>calculateAdjacentMines\<close>

text \<open>The two inner loops over \<open>i\<close> and \<open>j\<close>, counting the mines around \<open>(row, col)\<close>.\<close>

fun countMines ::
  "Store \<Rightarrow> Board \<Rightarrow> int \<Rightarrow> int \<Rightarrow> (int \<times> int) list \<Rightarrow> nat \<Rightarrow> error + nat" where
  "countMines s newBoard row col [] count = Inr count"
| "countMines s newBoard row col ((i, j) # rest) count =
     (let newRow = row + i; newCol = col + j in
      if 0 \<le> newRow \<and> newRow < int BOARD_SIZE \<and> 0 \<le> newCol \<and> newCol < int BOARD_SIZE then
        (case tileAt newBoard newRow newCol of
           None \<Rightarrow> Inl TypeError
         | Some a \<Rightarrow>
             countMines s newBoard row col rest (if isMine (tiles s a) then count + 1 else count))
      else countMines s newBoard row col rest count)"

text \<open>The cells in the order of the two outer loops over \<open>row\<close> and \<open>col\<close>.\<close>

definition allCells :: "(nat \<times> nat) list" where
  "allCells = concat (map (\<lambda>row. map (\<lambda>col. (row, col)) [0..<BOARD_SIZE]) [0..<BOARD_SIZE])"

text \<open>The body of the outer loops: a cell that is not a mine gets a new tile object
  \<^verbatim>\<open>{ ...newBoard[row][col], adjacentMines: count }\<close>; a mine keeps its object.\<close>

fun adjacentLoop :: "Store \<Rightarrow> Board \<Rightarrow> (nat \<times> nat) list \<Rightarrow> error + (Store \<times> Board)" where
  "adjacentLoop s newBoard [] = Inr (s, newBoard)"
| "adjacentLoop s newBoard ((row, col) # rest) =
     (case tileAt newBoard (int row) (int col) of
        None \<Rightarrow> Inl TypeError
      | Some a \<Rightarrow>
          if \<not> isMine (tiles s a) then
            (case countMines s newBoard (int row) (int col) offsets 0 of
               Inl e \<Rightarrow> Inl e
             | Inr count \<Rightarrow>
                 (let (s', a') = newTile s ((tiles s a)\<lparr>adjacentMines := count\<rparr>) in
                  adjacentLoop s' (setTile newBoard row col a') rest))
          else adjacentLoop s newBoard rest)"

definition calculateAdjacentMines :: "Store \<Rightarrow> Board \<Rightarrow> error + (Store \<times> Board)" where
  "calculateAdjacentMines s board = (let newBoard = board in adjacentLoop s newBoard allCells)"

definition createEmptyBoard :: "draws \<Rightarrow> Store \<Rightarrow> error + (draws \<times> Store \<times> Board)" where
  "createEmptyBoard ds s =
     (let (s1, newBoard) = newTileRows s BOARD_SIZE in
      case seedMines ds s1 newBoard 0 of
        Inl e \<Rightarrow> Inl e
      | Inr (ds', s2) \<Rightarrow>
          (case calculateAdjacentMines s2 newBoard of
             Inl e \<Rightarrow> Inl e
           | Inr (s3, b) \<Rightarrow> Inr (ds', s3, b)))"

subsection \<open>placeMines\<close>

text \<open>The loop of \<^verbatim>\<open>placeMines\<close>: a drawn cell that is neither a mine nor the initial
  click gets a new tile object \<^verbatim>\<open>{ ...newBoard[row][col], isMine: true }\<close>.\<close>

fun placeMinesLoop ::
  "draws \<Rightarrow> Store \<Rightarrow> Board \<Rightarrow> nat \<Rightarrow> nat \<Rightarrow> int \<Rightarrow> int \<Rightarrow> error + (draws \<times> Store \<times> Board)" where
  "placeMinesLoop ds s newBoard minesPlaced numMines initialClickRow initialClickCol =
     (if minesPlaced < numMines then
        (case ds of
           [] \<Rightarrow> Inl DrawsExhausted
         | (row, col) # ds' \<Rightarrow>
             (case tileAt newBoard (int row) (int col) of
                None \<Rightarrow> Inl TypeError
              | Some a \<Rightarrow>
                  if \<not> isMine (tiles s a)
                     \<and> \<not> (int row = initialClickRow \<and> int col = initialClickCol) then
                    (let (s', a') = newTile s ((tiles s a)\<lparr>isMine := True\<rparr>) in
                     placeMinesLoop ds' s' (setTile newBoard row col a') (minesPlaced + 1) numMines
                       initialClickRow initialClickCol)
                  else
                    placeMinesLoop ds' s newBoard minesPlaced numMines
                      initialClickRow initialClickCol))
      else Inr (ds, s, newBoard))"

definition placeMines ::
  "draws \<Rightarrow> Store \<Rightarrow> Board \<Rightarrow> nat \<Rightarrow> int \<Rightarrow> int \<Rightarrow> error + (draws \<times> Store \<times> Board)" where
  "placeMines ds s board numMines initialClickRow initialClickCol =
     (let newBoard = board in
      placeMinesLoop ds s newBoard 0 numMines initialClickRow initialClickCol)"

subsection \<open>revealTile\<close>

text \<open>
  \<open>revealTile\<close> returns the store after its in-place writes together with \<open>newBoard\<close>,
  the copy of the rows. \<open>revealNeighbors\<close> is the pair of loops over \<open>i\<close> and \<open>j\<close>; each
  recursive call \<^verbatim>\<open>revealTile(newBoard, newRow, newCol)\<close> is made for its writes to the
  shared tile objects, and the board it returns is dropped.
\<close>

function revealTile :: "Store \<Rightarrow> Board \<Rightarrow> int \<Rightarrow> int \<Rightarrow> error + (Store \<times> Board)"
  and revealNeighbors ::
    "Store \<Rightarrow> Board \<Rightarrow> int \<Rightarrow> int \<Rightarrow> (int \<times> int) list \<Rightarrow> error + Store"
where
  "revealTile s board row col =
     (let newBoard = board in
      case tileAt newBoard row col of
        None \<Rightarrow> Inl TypeError
      | Some a \<Rightarrow>
          if isRevealed (tiles s a) \<or> isFlagged (tiles s a) then Inr (s, newBoard)
          else
            let s1 = writeTile s a ((tiles s a)\<lparr>isRevealed := True\<rparr>) in
            if adjacentMines (tiles s1 a) = 0 then
              (case revealNeighbors s1 newBoard row col offsets of
                 Inl e \<Rightarrow> Inl e
               | Inr s2 \<Rightarrow> Inr (s2, newBoard))
            else Inr (s1, newBoard))"
| "revealNeighbors s newBoard row col [] = Inr s"
| "revealNeighbors s newBoard row col ((i, j) # rest) =
     (let newRow = row + i; newCol = col + j in
      if 0 \<le> newRow \<and> newRow < int BOARD_SIZE \<and> 0 \<le> newCol \<and> newCol < int BOARD_SIZE then
        (case revealTile s newBoard newRow newCol of
           Inl e \<Rightarrow> Inl e
         | Inr (s', _) \<Rightarrow> revealNeighbors s' newBoard row col rest)
      else revealNeighbors s newBoard row col rest)"
  by pat_completeness auto

subsection \<open>checkWinCondition and revealBoard\<close>

definition checkWinCondition :: "Store \<Rightarrow> Board \<Rightarrow> bool" where
  "checkWinCondition s board =
     (let numRevealed =
            length (filter (\<lambda>a. isRevealed (tiles s a) \<and> \<not> isMine (tiles s a)) (concat board))
      in numRevealed = BOARD_SIZE * BOARD_SIZE - NUM_MINES)"

text \<open>\<^verbatim>\<open>board.map(row => row.map(tile => ({ ...tile, isRevealed: true })))\<close>: a new tile
  object for every cell.\<close>

fun revealRow :: "Store \<Rightarrow> ref list \<Rightarrow> Store \<times> ref list" where
  "revealRow s [] = (s, [])"
| "revealRow s (a # as) =
     (let (s1, a') = newTile s ((tiles s a)\<lparr>isRevealed := True\<rparr>);
          (s2, as') = revealRow s1 as
      in (s2, a' # as'))"

fun revealBoard :: "Store \<Rightarrow> Board \<Rightarrow> Store \<times> Board" where
  "revealBoard s [] = (s, [])"
| "revealBoard s (row # rows) =
     (let (s1, row') = revealRow s row;
          (s2, rows') = revealBoard s1 rows
      in (s2, row' # rows'))"

section \<open>Game controller\<close>

text \<open>
  The state of the component \<^verbatim>\<open>MinesweeperGame\<close>. A handler reads the values of its
  render (\<open>board st\<close> below is the \<^verbatim>\<open>board\<close> of the closure), and of several
  \<^verbatim>\<open>setBoard\<close> calls in one handler the last one is the board of the next render.
  Toasts and animation state are presentation and are left out.
\<close>

record GameState =
  board :: Board
  isGameOver :: bool
  isGameWon :: bool
  flagsLeft :: int

definition handleTileClick ::
  "draws \<Rightarrow> Store \<Rightarrow> GameState \<Rightarrow> int \<Rightarrow> int \<Rightarrow> error + (draws \<times> Store \<times> GameState)" where
  "handleTileClick ds s st row col =
     (if isGameOver st \<or> isGameWon st then Inr (ds, s, st)
      else
        case (if list_all (\<lambda>a. \<not> isMine (tiles s a) \<and> \<not> isRevealed (tiles s a))
                   (concat (board st))
              then (case placeMines ds s (board st) NUM_MINES row col of
                      Inl e \<Rightarrow> Inl e
                    | Inr (ds1, s1, newBoard) \<Rightarrow>
                        (case calculateAdjacentMines s1 newBoard of
                           Inl e \<Rightarrow> Inl e
                         | Inr (s2, newBoard') \<Rightarrow> Inr (ds1, s2, st\<lparr>board := newBoard'\<rparr>)))
              else Inr (ds, s, st)) of
          Inl e \<Rightarrow> Inl e
        | Inr (ds1, s1, st1) \<Rightarrow>
            (case revealTile s1 (board st) row col of
               Inl e \<Rightarrow> Inl e
             | Inr (s2, newBoard) \<Rightarrow>
                 (case tileAt newBoard row col of
                    None \<Rightarrow> Inl TypeError
                  | Some a \<Rightarrow>
                      if isMine (tiles s2 a) then
                        (let (s3, shown) = revealBoard s2 (board st)
                         in Inr (ds1, s3, st1\<lparr>isGameOver := True, board := shown\<rparr>))
                      else
                        (let st2 = st1\<lparr>board := newBoard\<rparr> in
                         if checkWinCondition s2 newBoard then
                           (let (s3, shown) = revealBoard s2 (board st)
                            in Inr (ds1, s3, st2\<lparr>isGameWon := True, board := shown\<rparr>))
                         else Inr (ds1, s2, st2)))))"

definition handleTileRightClick ::
  "Store \<Rightarrow> GameState \<Rightarrow> int \<Rightarrow> int \<Rightarrow> error + (Store \<times> GameState)" where
  "handleTileRightClick s st row col =
     (if isGameOver st \<or> isGameWon st then Inr (s, st)
      else
        (let newBoard = board st in
         case tileAt newBoard row col of
           None \<Rightarrow> Inl TypeError
         | Some a \<Rightarrow>
             (let currentTile = tiles s a in
              if \<not> isRevealed currentTile then
                (if isFlagged currentTile then
                   Inr (writeTile s a (currentTile\<lparr>isFlagged := False\<rparr>),
                        st\<lparr>flagsLeft := flagsLeft st + 1, board := newBoard\<rparr>)
                 else if flagsLeft st > 0 then
                   Inr (writeTile s a (currentTile\<lparr>isFlagged := True\<rparr>),
                        st\<lparr>flagsLeft := flagsLeft st - 1, board := newBoard\<rparr>)
                 else Inr (s, st\<lparr>board := newBoard\<rparr>))
              else Inr (s, st))))"

text \<open>\<^verbatim>\<open>handleReset\<close>; the effect run on mount makes the same four assignments.\<close>

definition handleReset :: "draws \<Rightarrow> Store \<Rightarrow> error + (draws \<times> Store \<times> GameState)" where
  "handleReset ds s =
     (case createEmptyBoard ds s of
        Inl e \<Rightarrow> Inl e
      | Inr (ds', s', b) \<Rightarrow>
          Inr (ds', s',
               \<lparr>board = b, isGameOver = False, isGameWon = False, flagsLeft = INITIAL_FLAGS\<rparr>))"

section \<open>Notions used in the properties\<close>

subsection \<open>Boards and cells\<close>

text \<open>A board of \<open>BOARD_SIZE\<close> rows of \<open>BOARD_SIZE\<close> cells, and a board all of whose tile
  objects have been allocated (in JavaScript every board is).\<close>

definition square :: "Board \<Rightarrow> bool" where
  "square b \<longleftrightarrow> length b = BOARD_SIZE \<and> list_all (\<lambda>row. length row = BOARD_SIZE) b"

definition allocated :: "Store \<Rightarrow> Board \<Rightarrow> bool" where
  "allocated s b \<longleftrightarrow> list_all (\<lambda>a. a < nextRef s) (concat b)"

text \<open>No tile object sits in two cells of the board. Every board the code builds has a
  new object per cell.\<close>

definition distinctCells :: "Board \<Rightarrow> bool" where
  "distinctCells b \<longleftrightarrow>
     (\<forall>r < BOARD_SIZE. \<forall>c < BOARD_SIZE. \<forall>r' < BOARD_SIZE. \<forall>c' < BOARD_SIZE.
        b ! r ! c = b ! r' ! c' \<longrightarrow> r = r' \<and> c = c')"

text \<open>The tile object of a cell.\<close>

definition cell :: "Store \<Rightarrow> Board \<Rightarrow> nat \<Rightarrow> nat \<Rightarrow> Tile" where
  "cell s b r c = tiles s (b ! r ! c)"

text \<open>The cells of a board that are revealed and hold no mine, and those that hold a
  mine.\<close>

definition revealedSafeCells :: "Store \<Rightarrow> Board \<Rightarrow> (nat \<times> nat) set" where
  "revealedSafeCells s b =
     {(r, c). r < length b \<and> c < length (b ! r)
              \<and> isRevealed (cell s b r c) \<and> \<not> isMine (cell s b r c)}"

definition mineCells :: "Store \<Rightarrow> Board \<Rightarrow> (nat \<times> nat) set" where
  "mineCells s b = {(r, c). r < length b \<and> c < length (b ! r) \<and> isMine (cell s b r c)}"

text \<open>The number of mines among the neighbours of \<open>(r, c)\<close>: the cells of the board other
  than \<open>(r, c)\<close> at most one row and one column away.\<close>

definition mineNeighbours :: "Store \<Rightarrow> Board \<Rightarrow> nat \<Rightarrow> nat \<Rightarrow> nat" where
  "mineNeighbours s b r c =
     card {(r', c'). r' < BOARD_SIZE \<and> c' < BOARD_SIZE \<and> (r', c') \<noteq> (r, c)
                     \<and> r' \<le> r + 1 \<and> r \<le> r' + 1 \<and> c' \<le> c + 1 \<and> c \<le> c' + 1
                     \<and> isMine (cell s b r' c')}"

text \<open>A mine at a coordinate that may lie outside the board.\<close>

definition mineAt :: "Store \<Rightarrow> Board \<Rightarrow> int \<Rightarrow> int \<Rightarrow> bool" where
  "mineAt s b r c \<longleftrightarrow> 0 \<le> r \<and> r < int BOARD_SIZE \<and> 0 \<le> c \<and> c < int BOARD_SIZE
                     \<and> isMine (cell s b (nat r) (nat c))"

subsection \<open>The flood fill\<close>

text \<open>Every tile revealed in \<open>s\<close> is revealed in \<open>s'\<close>, and the number of distinct tile
  objects of a board not yet revealed: the measure of the flood fill.\<close>

definition revealedLe :: "Store \<Rightarrow> Store \<Rightarrow> bool" where
  "revealedLe s s' \<longleftrightarrow> (\<forall>x. isRevealed (tiles s x) \<longrightarrow> isRevealed (tiles s' x))"

definition unrevealed :: "Store \<Rightarrow> Board \<Rightarrow> nat" where
  "unrevealed s b = card {a \<in> set (concat b). \<not> isRevealed (tiles s a)}"

text \<open>What a flood fill may do to the store: a tile object is left as it was, or it was
  neither revealed nor flagged and is now revealed; nothing is allocated.\<close>

definition onlyReveals :: "Store \<Rightarrow> Store \<Rightarrow> bool" where
  "onlyReveals s s' \<longleftrightarrow>
     nextRef s' = nextRef s \<and>
     (\<forall>x. tiles s' x = tiles s x
          \<or> (\<not> isRevealed (tiles s x) \<and> \<not> isFlagged (tiles s x)
              \<and> tiles s' x = (tiles s x)\<lparr>isRevealed := True\<rparr>))"

text \<open>A coordinate inside the board and the tile object there; a tile the fill passes
  over, because it is revealed or flagged; a tile revealed between two stores.\<close>

definition inBoard :: "int \<Rightarrow> int \<Rightarrow> bool" where
  "inBoard r c \<longleftrightarrow> 0 \<le> r \<and> r < int BOARD_SIZE \<and> 0 \<le> c \<and> c < int BOARD_SIZE"

definition tileOf :: "Board \<Rightarrow> int \<Rightarrow> int \<Rightarrow> ref" where
  "tileOf b r c = b ! nat r ! nat c"

definition settled :: "Store \<Rightarrow> ref \<Rightarrow> bool" where
  "settled s x \<longleftrightarrow> isRevealed (tiles s x) \<or> isFlagged (tiles s x)"

definition newlyRevealed :: "Store \<Rightarrow> Store \<Rightarrow> ref \<Rightarrow> bool" where
  "newlyRevealed s s' x \<longleftrightarrow> \<not> isRevealed (tiles s x) \<and> isRevealed (tiles s' x)"

text \<open>The cells a fill from \<open>(row, col)\<close> reaches in the store \<open>s\<close>: the target, if it is
  neither revealed nor flagged, and every neighbour inside the board, neither revealed
  nor flagged, of a reached cell whose \<open>adjacentMines\<close> is 0. Whether a cell holds a mine
  plays no part.\<close>

inductive fill :: "Store \<Rightarrow> Board \<Rightarrow> int \<Rightarrow> int \<Rightarrow> int \<Rightarrow> int \<Rightarrow> bool"
  for s :: Store and b :: Board and row :: int and col :: int where
  target: "\<not> settled s (tileOf b row col) \<Longrightarrow> fill s b row col row col"
| spread: "fill s b row col r c \<Longrightarrow> adjacentMines (tiles s (tileOf b r c)) = 0 \<Longrightarrow>
           (i, j) \<in> set offsets \<Longrightarrow> inBoard (r + i) (c + j) \<Longrightarrow>
           \<not> settled s (tileOf b (r + i) (c + j)) \<Longrightarrow> fill s b row col (r + i) (c + j)"

code_pred fill .

text \<open>Every cell revealed between \<open>s\<close> and \<open>s'\<close> whose \<open>adjacentMines\<close> is 0 has had all
  its neighbours visited: each is revealed or flagged in \<open>s'\<close>.\<close>

definition fillClosed :: "Store \<Rightarrow> Store \<Rightarrow> Board \<Rightarrow> bool" where
  "fillClosed s s' b \<longleftrightarrow>
     (\<forall>r c. inBoard r c \<and> newlyRevealed s s' (tileOf b r c)
              \<and> adjacentMines (tiles s' (tileOf b r c)) = 0 \<longrightarrow>
        (\<forall>(i, j) \<in> set offsets. inBoard (r + i) (c + j) \<longrightarrow>
           settled s' (tileOf b (r + i) (c + j))))"

subsection \<open>Reachable states of the game\<close>

text \<open>
  The store and the component state between two events. \<open>start\<close>: the mount effect and
  \<open>handleReset\<close> install the board of a \<open>createEmptyBoard\<close> call, whatever the store was.
  \<open>render\<close>: the argument of \<^verbatim>\<open>useState<Board>(createEmptyBoard())\<close> is evaluated at
  every render and its board dropped. \<open>click\<close> and \<open>flag\<close>: the handlers, at a coordinate
  inside the board, as the grid of the component passes them.
\<close>

inductive reachable :: "Store \<Rightarrow> GameState \<Rightarrow> bool" where
  start: "handleReset ds s0 = Inr (ds', s, st) \<Longrightarrow> reachable s st"
| render: "reachable s st \<Longrightarrow> createEmptyBoard ds s = Inr (ds', s', b) \<Longrightarrow> reachable s' st"
| click: "reachable s st \<Longrightarrow> tileAt (board st) row col = Some a \<Longrightarrow>
          handleTileClick ds s st row col = Inr (ds', s', st') \<Longrightarrow> reachable s' st'"
| flag: "reachable s st \<Longrightarrow> tileAt (board st) row col = Some a \<Longrightarrow>
         handleTileRightClick s st row col = Inr (s', st') \<Longrightarrow> reachable s' st'"

text \<open>No tile of the board is both revealed and flagged.\<close>

definition noRevealedFlag :: "Store \<Rightarrow> Board \<Rightarrow> bool" where
  "noRevealedFlag s b \<longleftrightarrow>
     list_all (\<lambda>a. \<not> (isRevealed (tiles s a) \<and> isFlagged (tiles s a))) (concat b)"

text \<open>What holds of every reachable state: the tiles of the board exist, and while the game
  is in progress none of them is both revealed and flagged.\<close>

definition gameInv :: "Store \<Rightarrow> GameState \<Rightarrow> bool" where
  "gameInv s st \<longleftrightarrow>
     allocated s (board st)
     \<and> (\<not> isGameOver st \<and> \<not> isGameWon st \<longrightarrow> noRevealedFlag s (board st))"

text \<open>Every tile of the board is revealed, as after \<open>revealBoard\<close>. What else holds of
  every reachable state: once the game is lost or won every tile of the board is revealed,
  and while it is in progress the board is one of \<open>createEmptyBoard\<close>, of \<open>BOARD_SIZE\<close> by
  \<open>BOARD_SIZE\<close> distinct tile objects.\<close>

definition allRevealed :: "Store \<Rightarrow> Board \<Rightarrow> bool" where
  "allRevealed s b \<longleftrightarrow> list_all (\<lambda>a. isRevealed (tiles s a)) (concat b)"

definition endInv :: "Store \<Rightarrow> GameState \<Rightarrow> bool" where
  "endInv s st \<longleftrightarrow>
     (isGameOver st \<or> isGameWon st \<longrightarrow> allRevealed s (board st))
     \<and> (\<not> isGameOver st \<and> \<not> isGameWon st \<longrightarrow>
          square (board st) \<and> distinctCells (board st))"

text \<open>Every mine of the board has kept the \<open>adjacentMines = 0\<close> it was created with.\<close>

definition minesZero :: "Store \<Rightarrow> Board \<Rightarrow> bool" where
  "minesZero s b \<longleftrightarrow>
     list_all (\<lambda>a. isMine (tiles s a) \<longrightarrow> adjacentMines (tiles s a) = 0) (concat b)"

subsection \<open>Concrete boards and states\<close>

text \<open>The store before anything is allocated, and the board \<open>createEmptyBoard\<close> allocates
  in it before it places the mines: cell \<open>(r, c)\<close> holds the reference \<open>10 * r + c\<close> to a
  blank tile.\<close>

definition emptyStore :: Store where
  "emptyStore = \<lparr>tiles = (\<lambda>a. blankTile), nextRef = 0\<rparr>"

definition gridBoard :: Board where
  "gridBoard =
     [[ 0,  1,  2,  3,  4,  5,  6,  7,  8,  9],
      [10, 11, 12, 13, 14, 15, 16, 17, 18, 19],
      [20, 21, 22, 23, 24, 25, 26, 27, 28, 29],
      [30, 31, 32, 33, 34, 35, 36, 37, 38, 39],
      [40, 41, 42, 43, 44, 45, 46, 47, 48, 49],
      [50, 51, 52, 53, 54, 55, 56, 57, 58, 59],
      [60, 61, 62, 63, 64, 65, 66, 67, 68, 69],
      [70, 71, 72, 73, 74, 75, 76, 77, 78, 79],
      [80, 81, 82, 83, 84, 85, 86, 87, 88, 89],
      [90, 91, 92, 93, 94, 95, 96, 97, 98, 99]]"

definition blankStore :: Store where
  "blankStore = \<lparr>tiles = (\<lambda>a. blankTile), nextRef = 100\<rparr>"

definition blankGame :: GameState where
  "blankGame = \<lparr>board = gridBoard, isGameOver = False, isGameWon = False, flagsLeft = 10\<rparr>"

text \<open>A board with a single mine, in the corner \<open>(0, 0)\<close>: before the adjacency pass, and
  with the adjacency counts that go with it, 1 on the three neighbours of the corner and
  0 elsewhere (and 0 on the mine itself, which \<open>calculateAdjacentMines\<close> never writes).\<close>

definition seededCornerStore :: Store where
  "seededCornerStore =
     \<lparr>tiles = (\<lambda>a. if a = 0 then blankTile\<lparr>isMine := True\<rparr> else blankTile), nextRef = 100\<rparr>"

definition cornerMineTiles :: "ref \<Rightarrow> Tile" where
  "cornerMineTiles a =
     (if a = 0 then blankTile\<lparr>isMine := True\<rparr>
      else if a = 1 \<or> a = 10 \<or> a = 11 then blankTile\<lparr>adjacentMines := 1\<rparr>
      else blankTile)"

definition cornerMineStore :: Store where
  "cornerMineStore = \<lparr>tiles = cornerMineTiles, nextRef = 100\<rparr>"

text \<open>The same board after the player has flagged the mine.\<close>

definition flaggedMineStore :: Store where
  "flaggedMineStore = writeTile cornerMineStore 0 ((tiles cornerMineStore 0)\<lparr>isFlagged := True\<rparr>)"

definition flaggedMineGame :: GameState where
  "flaggedMineGame = \<lparr>board = gridBoard, isGameOver = False, isGameWon = False, flagsLeft = 9\<rparr>"

text \<open>The corner-mine board with the ten tiles of row 2 flagged, so that the flag budget
  \<open>INITIAL_FLAGS\<close> is used up.\<close>

definition tenFlagsStore :: Store where
  "tenFlagsStore =
     \<lparr>tiles = (\<lambda>a. (cornerMineTiles a)\<lparr>isFlagged := (20 \<le> a \<and> a < 30)\<rparr>), nextRef = 100\<rparr>"

definition tenFlagsGame :: GameState where
  "tenFlagsGame = \<lparr>board = gridBoard, isGameOver = False, isGameWon = False, flagsLeft = 0\<rparr>"

text \<open>A run of the random source: sixteen draws, the second a repeat of the first, so that
  fifteen distinct cells are hit, and the game that the mount effect or a reset installs
  from these draws. Its first mine is at \<open>(0, 0)\<close>.\<close>

definition sampleDraws :: draws where
  "sampleDraws =
     [(0, 0), (0, 0), (0, 5), (1, 7), (2, 2), (3, 3), (4, 4), (5, 5),
      (6, 6), (7, 7), (8, 8), (9, 9), (9, 0), (0, 9), (5, 0), (0, 6)]"

definition freshResult :: "error + (draws \<times> Store \<times> GameState)" where
  "freshResult = handleReset sampleDraws emptyStore"

definition freshStore :: Store where
  "freshStore = fst (snd (projr freshResult))"

definition freshGame :: GameState where
  "freshGame = snd (snd (projr freshResult))"

text \<open>The sample game after a left click on \<open>(0, 0)\<close> as the first action.\<close>

definition firstClickResult :: "error + (draws \<times> Store \<times> GameState)" where
  "firstClickResult = handleTileClick [] freshStore freshGame 0 0"

definition firstClickStore :: Store where
  "firstClickStore = fst (snd (projr firstClickResult))"

definition firstClickGame :: GameState where
  "firstClickGame = snd (snd (projr firstClickResult))"

text \<open>The sample game after a right click on \<open>(0, 0)\<close>, and after a left click on
  \<open>(0, 0)\<close> that follows it.\<close>

definition flaggedResult :: "error + (Store \<times> GameState)" where
  "flaggedResult = handleTileRightClick freshStore freshGame 0 0"

definition flaggedStore :: Store where
  "flaggedStore = fst (projr flaggedResult)"

definition flaggedGame :: GameState where
  "flaggedGame = snd (projr flaggedResult)"

definition lostResult :: "error + (draws \<times> Store \<times> GameState)" where
  "lostResult = handleTileClick [] flaggedStore flaggedGame 0 0"

definition lostStore :: Store where
  "lostStore = fst (snd (projr lostResult))"

definition lostGame :: GameState where
  "lostGame = snd (snd (projr lostResult))"

text \<open>The sample game after the right click on \<open>(0, 0)\<close> and a left click on \<open>(0, 1)\<close>,
  a neighbour of the mine.\<close>

definition playedResult :: "error + (draws \<times> Store \<times> GameState)" where
  "playedResult = handleTileClick [] flaggedStore flaggedGame 0 1"

definition playedStore :: Store where
  "playedStore = fst (snd (projr playedResult))"

definition playedGame :: GameState where
  "playedGame = snd (snd (projr playedResult))"

text \<open>A left click on \<open>(0, 0)\<close> of the blank board, the state that only a board without
  mines would give. With one more draw the sample draws hit fifteen cells other than
  \<open>(0, 0)\<close>.\<close>

definition moreDraws :: draws where
  "moreDraws = sampleDraws @ [(3, 7)]"

definition staleResult :: "error + (draws \<times> Store \<times> GameState)" where
  "staleResult = handleTileClick moreDraws blankStore blankGame 0 0"

definition staleStore :: Store where
  "staleStore = fst (snd (projr staleResult))"

definition staleGame :: GameState where
  "staleGame = snd (snd (projr staleResult))"

section \<open>Termination of the flood fill\<close>

lemma revealedLe_refl: "revealedLe s s"
  by (simp add: revealedLe_def)

lemma revealedLe_trans: "revealedLe s s1 \<Longrightarrow> revealedLe s1 s2 \<Longrightarrow> revealedLe s s2"
  by (simp add: revealedLe_def)

lemma revealedLe_write: "revealedLe s (writeTile s a ((tiles s a)\<lparr>isRevealed := True\<rparr>))"
  by (simp add: revealedLe_def writeTile_def)

text \<open>On its domain the flood fill only ever adds revealed tiles.\<close>

lemma reveal_dom_mono:
  "revealTile_revealNeighbors_dom (Inl (s, b, r, c)) \<Longrightarrow>
     (\<forall>s' nb. revealTile s b r c = Inr (s', nb) \<longrightarrow> revealedLe s s')"
  "revealTile_revealNeighbors_dom (Inr (s, b, r, c, ps)) \<Longrightarrow>
     (\<forall>s'. revealNeighbors s b r c ps = Inr s' \<longrightarrow> revealedLe s s')"
proof (induct rule: revealTile_revealNeighbors.pinduct)
  case (1 s b row col)
  show ?case
  proof (intro allI impI)
    fix s' nb
    assume res: "revealTile s b row col = Inr (s', nb)"
    show "revealedLe s s'"
    proof (cases "tileAt b row col")
      case None
      with res 1(1) show ?thesis by (simp add: revealTile.psimps)
    next
      case (Some a)
      let ?s1 = "writeTile s a ((tiles s a)\<lparr>isRevealed := True\<rparr>)"
      show ?thesis
      proof (cases "isRevealed (tiles s a) \<or> isFlagged (tiles s a)")
        case True
        with res 1(1) Some show ?thesis
          by (auto simp add: revealTile.psimps revealedLe_refl)
      next
        case False
        show ?thesis
        proof (cases "adjacentMines (tiles ?s1 a) = 0")
          case nz: False
          with res 1(1) Some False have "s' = ?s1"
            by (auto simp add: revealTile.psimps Let_def)
          then show ?thesis by (simp add: revealedLe_write)
        next
          case z: True
          from res 1(1) Some False z have "revealNeighbors ?s1 b row col offsets = Inr s'"
            by (auto simp add: revealTile.psimps Let_def split: sum.splits)
          with 1(2)[OF refl Some False refl z] have "revealedLe ?s1 s'" by blast
          then show ?thesis using revealedLe_write revealedLe_trans by blast
        qed
      qed
    qed
  qed
next
  case (2 s newBoard row col)
  then show ?case by (simp add: revealNeighbors.psimps revealedLe_refl)
next
  case (3 s newBoard row col i j rest)
  let ?inb = "0 \<le> row + i \<and> row + i < int BOARD_SIZE \<and> 0 \<le> col + j \<and> col + j < int BOARD_SIZE"
  show ?case
  proof (intro allI impI)
    fix s'
    assume res: "revealNeighbors s newBoard row col ((i, j) # rest) = Inr s'"
    show "revealedLe s s'"
    proof (cases ?inb)
      case False
      with res 3(1) have "revealNeighbors s newBoard row col rest = Inr s'"
        by (simp add: revealNeighbors.psimps Let_def)
      with 3(4)[OF refl refl False] show ?thesis by blast
    next
      case True
      with res 3(1) obtain s1 nb where
        r1: "revealTile s newBoard (row + i) (col + j) = Inr (s1, nb)"
        and r2: "revealNeighbors s1 newBoard row col rest = Inr s'"
        by (auto simp add: revealNeighbors.psimps Let_def split: sum.splits)
      from 3(2)[OF refl refl True] r1 have "revealedLe s s1" by blast
      moreover from 3(3)[OF refl refl True r1 refl] r2 have "revealedLe s1 s'" by blast
      ultimately show ?thesis by (rule revealedLe_trans)
    qed
  qed
qed

lemma unrevealed_mono: "revealedLe s s' \<Longrightarrow> unrevealed s' b \<le> unrevealed s b"
  unfolding unrevealed_def revealedLe_def
  by (rule card_mono) auto

lemma tileAt_mem: "tileAt b r c = Some a \<Longrightarrow> a \<in> set (concat b)"
  by (auto simp add: tileAt_def split: if_splits intro!: bexI[of _ "b ! nat r"])

lemma unrevealed_write:
  assumes "tileAt b r c = Some a" "\<not> isRevealed (tiles s a)"
  shows "unrevealed (writeTile s a ((tiles s a)\<lparr>isRevealed := True\<rparr>)) b < unrevealed s b"
  unfolding unrevealed_def
proof (rule psubset_card_mono)
  show "finite {a \<in> set (concat b). \<not> isRevealed (tiles s a)}" by simp
  from assms tileAt_mem[OF assms(1)]
  show "{x \<in> set (concat b). \<not> isRevealed (tiles (writeTile s a ((tiles s a)\<lparr>isRevealed := True\<rparr>)) x)}
        \<subset> {a \<in> set (concat b). \<not> isRevealed (tiles s a)}"
    by (auto simp add: writeTile_def)
qed

text \<open>Each call that passes the guard reveals one more tile object of the board, and the
  calls made from the loops never hide one again.\<close>

termination revealTile
proof (relation "measures [\<lambda>x. case x of Inl (s, b, r, c) \<Rightarrow> unrevealed s b
                                    | Inr (s, b, r, c, ps) \<Rightarrow> unrevealed s b,
                            \<lambda>x. case x of Inl _ \<Rightarrow> 0 | Inr (s, b, r, c, ps) \<Rightarrow> Suc (length ps)]",
       goal_cases)
  case 1
  show ?case by simp
next
  case (2 s b row col x x2 xa)
  then show ?case using unrevealed_write[of b row col x2 s] by simp
next
  case (3 s newBoard row col i j rest x xa)
  then show ?case by simp
next
  case (4 s newBoard row col i j rest x xa b xb y)
  then show ?case
    using reveal_dom_mono(1)[of s newBoard x xa] unrevealed_mono[of s xb newBoard]
    by auto
next
  case (5 s newBoard row col i j rest x xa)
  then show ?case by simp
qed

declare revealTile.simps [simp del]
declare seedMines.simps [simp del]
declare placeMinesLoop.simps [simp del]

section \<open>Allocation and the forced reveal\<close>

lemma writeTile_simps [simp]:
  "tiles (writeTile s a t) x = (if x = a then t else tiles s x)"
  "nextRef (writeTile s a t) = nextRef s"
  by (simp_all add: writeTile_def)

lemma newTile_simps:
  "nextRef (fst (newTile s t)) = Suc (nextRef s)"
  "snd (newTile s t) = nextRef s"
  "tiles (fst (newTile s t)) x = (if x = nextRef s then t else tiles s x)"
  by (simp_all add: newTile_def)

lemma revealRow_spec:
  "revealRow s as = (s', as') \<Longrightarrow>
     nextRef s' = nextRef s + length as \<and>
     (\<forall>x < nextRef s. tiles s' x = tiles s x) \<and>
     list_all2 (\<lambda>a a'. nextRef s \<le> a' \<and> a' < nextRef s' \<and>
                  (a < nextRef s \<longrightarrow> tiles s' a' = (tiles s a)\<lparr>isRevealed := True\<rparr>) \<and>
                  isRevealed (tiles s' a')) as as'"
proof (induction as arbitrary: s s' as')
  case Nil
  then show ?case by simp
next
  case (Cons a as)
  obtain s1 a1 where n: "newTile s ((tiles s a)\<lparr>isRevealed := True\<rparr>) = (s1, a1)" by fastforce
  obtain s2 as2 where r: "revealRow s1 as = (s2, as2)" by fastforce
  from Cons.prems n r have eq: "s' = s2" "as' = a1 # as2" by auto
  from n have s1: "nextRef s1 = Suc (nextRef s)" "a1 = nextRef s"
    "\<And>x. tiles s1 x = (if x = nextRef s then (tiles s a)\<lparr>isRevealed := True\<rparr> else tiles s x)"
    by (auto simp add: newTile_def)
  note ih = Cons.IH[OF r]
  show ?case
    unfolding eq using ih s1
    apply (auto elim!: list_all2_mono)
    done
qed


lemma revealBoard_spec:
  "revealBoard s b = (s', b') \<Longrightarrow>
     nextRef s \<le> nextRef s' \<and>
     (\<forall>x < nextRef s. tiles s' x = tiles s x) \<and>
     list_all2 (list_all2 (\<lambda>a a'. nextRef s \<le> a' \<and> a' < nextRef s' \<and>
                  (a < nextRef s \<longrightarrow> tiles s' a' = (tiles s a)\<lparr>isRevealed := True\<rparr>) \<and>
                  isRevealed (tiles s' a'))) b b'"
proof (induction b arbitrary: s s' b')
  case Nil
  then show ?case by simp
next
  case (Cons row rows)
  obtain s1 row1 where n: "revealRow s row = (s1, row1)" by fastforce
  obtain s2 rows2 where r: "revealBoard s1 rows = (s2, rows2)" by fastforce
  from Cons.prems n r have eq: "s' = s2" "b' = row1 # rows2" by auto
  note h = revealRow_spec[OF n]
  note ih = Cons.IH[OF r]
  have le: "nextRef s \<le> nextRef s1" using h by simp
  have head: "list_all2 (\<lambda>a a'. nextRef s \<le> a' \<and> a' < nextRef s2 \<and>
                  (a < nextRef s \<longrightarrow> tiles s2 a' = (tiles s a)\<lparr>isRevealed := True\<rparr>) \<and>
                  isRevealed (tiles s2 a')) row row1"
    using h ih by (auto elim!: list_all2_mono)
  have tail: "list_all2 (list_all2 (\<lambda>a a'. nextRef s \<le> a' \<and> a' < nextRef s2 \<and>
                  (a < nextRef s \<longrightarrow> tiles s2 a' = (tiles s a)\<lparr>isRevealed := True\<rparr>) \<and>
                  isRevealed (tiles s2 a'))) rows rows2"
    using ih h le by (auto elim!: list_all2_mono)
  show ?case unfolding eq using head tail h ih le by auto
qed

lemma list_all2_concat_all:
  "list_all2 (list_all2 (\<lambda>a a'. P a')) b b' \<Longrightarrow> \<forall>a' \<in> set (concat b'). P a'"
  by (induction b b' rule: list_all2_induct) (auto simp add: list_all2_conv_all_nth in_set_conv_nth)

lemma revealBoard_all_revealed:
  assumes "revealBoard s b = (s', b')"
  shows "list_all (\<lambda>a. isRevealed (tiles s' a)) (concat b')"
proof -
  from revealBoard_spec[OF assms]
  have "list_all2 (list_all2 (\<lambda>a a'. isRevealed (tiles s' a'))) b b'"
    by (auto elim!: list_all2_mono)
  then show ?thesis using list_all2_concat_all[of "\<lambda>a'. isRevealed (tiles s' a')" b b']
    by (simp add: list_all_iff)
qed

lemma revealBoard_shape:
  assumes "revealBoard s b = (s', b')"
  shows "map length b' = map length b"
proof -
  from revealBoard_spec[OF assms]
  have "list_all2 (\<lambda>r r'. length r' = length r) b b'"
    by (auto elim!: list_all2_mono dest: list_all2_lengthD)
  then show ?thesis
    by (induction b b' rule: list_all2_induct) auto
qed

section \<open>The concrete board\<close>

lemma square_gridBoard: "square gridBoard"
  by (simp add: square_def gridBoard_def BOARD_SIZE_def)

lemma allocated_gridBoard: "nextRef s = 100 \<Longrightarrow> allocated s gridBoard"
  by (simp add: allocated_def gridBoard_def)

section \<open>What the flood fill writes\<close>

lemma onlyReveals_refl: "onlyReveals s s"
  by (simp add: onlyReveals_def)

lemma onlyReveals_trans:
  assumes "onlyReveals s s1" and "onlyReveals s1 s2"
  shows "onlyReveals s s2"
  unfolding onlyReveals_def
proof (intro conjI allI)
  show "nextRef s2 = nextRef s" using assms by (simp add: onlyReveals_def)
  fix x
  from assms(1) have a: "tiles s1 x = tiles s x
          \<or> (\<not> isRevealed (tiles s x) \<and> \<not> isFlagged (tiles s x)
              \<and> tiles s1 x = (tiles s x)\<lparr>isRevealed := True\<rparr>)"
    by (simp add: onlyReveals_def)
  from assms(2) have b: "tiles s2 x = tiles s1 x
          \<or> (\<not> isRevealed (tiles s1 x) \<and> \<not> isFlagged (tiles s1 x)
              \<and> tiles s2 x = (tiles s1 x)\<lparr>isRevealed := True\<rparr>)"
    by (simp add: onlyReveals_def)
  from a b show "tiles s2 x = tiles s x
          \<or> (\<not> isRevealed (tiles s x) \<and> \<not> isFlagged (tiles s x)
              \<and> tiles s2 x = (tiles s x)\<lparr>isRevealed := True\<rparr>)"
    by auto
qed

lemma onlyReveals_write:
  "\<not> isRevealed (tiles s a) \<Longrightarrow> \<not> isFlagged (tiles s a) \<Longrightarrow>
   onlyReveals s (writeTile s a ((tiles s a)\<lparr>isRevealed := True\<rparr>))"
  by (simp add: onlyReveals_def)

lemma reveal_onlyReveals:
  "\<forall>s' nb. revealTile s b r c = Inr (s', nb) \<longrightarrow> nb = b \<and> onlyReveals s s'"
  "\<forall>s'. revealNeighbors s b r c ps = Inr s' \<longrightarrow> onlyReveals s s'"
proof (induct s b r c and s b r c ps rule: revealTile_revealNeighbors.induct)
  case (1 s b row col)
  show ?case
  proof (intro allI impI)
    fix s' nb
    assume res: "revealTile s b row col = Inr (s', nb)"
    show "nb = b \<and> onlyReveals s s'"
    proof (cases "tileAt b row col")
      case None
      with res show ?thesis by (simp add: revealTile.simps)
    next
      case (Some a)
      let ?s1 = "writeTile s a ((tiles s a)\<lparr>isRevealed := True\<rparr>)"
      show ?thesis
      proof (cases "isRevealed (tiles s a) \<or> isFlagged (tiles s a)")
        case True
        with res Some show ?thesis
          by (auto simp add: revealTile.simps onlyReveals_refl)
      next
        case False
        then have w: "onlyReveals s ?s1" by (simp add: onlyReveals_write)
        show ?thesis
        proof (cases "adjacentMines (tiles ?s1 a) = 0")
          case nz: False
          with res Some False have "s' = ?s1" "nb = b"
            by (auto simp add: revealTile.simps Let_def)
          with w show ?thesis by simp
        next
          case z: True
          from res Some False z
          have "revealNeighbors ?s1 b row col offsets = Inr s'" "nb = b"
            by (auto simp add: revealTile.simps Let_def split: sum.splits)
          with 1[OF refl Some False refl z] have "onlyReveals ?s1 s'" "nb = b" by blast+
          with w show ?thesis using onlyReveals_trans by blast
        qed
      qed
    qed
  qed
next
  case (2 s newBoard row col)
  then show ?case by (simp add: onlyReveals_refl)
next
  case (3 s newBoard row col i j rest)
  let ?inb = "0 \<le> row + i \<and> row + i < int BOARD_SIZE \<and> 0 \<le> col + j \<and> col + j < int BOARD_SIZE"
  show ?case
  proof (intro allI impI)
    fix s'
    assume res: "revealNeighbors s newBoard row col ((i, j) # rest) = Inr s'"
    show "onlyReveals s s'"
    proof (cases ?inb)
      case False
      with res have "revealNeighbors s newBoard row col rest = Inr s'"
        by (simp add: Let_def)
      with 3(3)[OF refl refl False] show ?thesis by blast
    next
      case True
      with res obtain s1 nb where
        r1: "revealTile s newBoard (row + i) (col + j) = Inr (s1, nb)"
        and r2: "revealNeighbors s1 newBoard row col rest = Inr s'"
        by (auto simp add: Let_def split: sum.splits)
      from 3(1)[OF refl refl True] r1 have "onlyReveals s s1" by blast
      moreover from 3(2)[OF refl refl True r1 refl] r2 have "onlyReveals s1 s'" by blast
      ultimately show ?thesis by (rule onlyReveals_trans)
    qed
  qed
qed

lemma square_tileAt:
  assumes "square b" "0 \<le> r" "r < int BOARD_SIZE" "0 \<le> c" "c < int BOARD_SIZE"
  shows "tileAt b r c = Some (b ! nat r ! nat c)"
proof -
  from assms have "nat r < length b" by (simp add: square_def)
  moreover from this assms have "length (b ! nat r) = BOARD_SIZE"
    by (simp add: square_def list_all_length)
  ultimately show ?thesis using assms by (simp add: tileAt_def)
qed

lemma reveal_returns:
  "square b \<longrightarrow> 0 \<le> r \<and> r < int BOARD_SIZE \<and> 0 \<le> c \<and> c < int BOARD_SIZE \<longrightarrow>
     (\<exists>s'. revealTile s b r c = Inr (s', b))"
  "square b \<longrightarrow> (\<exists>s'. revealNeighbors s b r c ps = Inr s')"
proof (induct s b r c and s b r c ps rule: revealTile_revealNeighbors.induct)
  case (1 s b row col)
  show ?case
  proof (intro impI)
    assume sq: "square b"
      and inb: "0 \<le> row \<and> row < int BOARD_SIZE \<and> 0 \<le> col \<and> col < int BOARD_SIZE"
    define a where "a = b ! nat row ! nat col"
    have Some: "tileAt b row col = Some a"
      using square_tileAt[of b row col] sq inb by (simp add: a_def)
    let ?s1 = "writeTile s a ((tiles s a)\<lparr>isRevealed := True\<rparr>)"
    show "\<exists>s'. revealTile s b row col = Inr (s', b)"
    proof (cases "isRevealed (tiles s a) \<or> isFlagged (tiles s a)")
      case True
      with Some show ?thesis by (auto simp add: revealTile.simps)
    next
      case False
      show ?thesis
      proof (cases "adjacentMines (tiles ?s1 a) = 0")
        case nz: False
        with Some False show ?thesis by (auto simp add: revealTile.simps Let_def)
      next
        case z: True
        from 1[OF refl Some False refl z] sq
        obtain s' where "revealNeighbors ?s1 b row col offsets = Inr s'" by blast
        with Some False z show ?thesis by (auto simp add: revealTile.simps Let_def)
      qed
    qed
  qed
next
  case (2 s newBoard row col)
  then show ?case by simp
next
  case (3 s newBoard row col i j rest)
  let ?inb = "0 \<le> row + i \<and> row + i < int BOARD_SIZE \<and> 0 \<le> col + j \<and> col + j < int BOARD_SIZE"
  show ?case
  proof (intro impI)
    assume sq: "square newBoard"
    show "\<exists>s'. revealNeighbors s newBoard row col ((i, j) # rest) = Inr s'"
    proof (cases ?inb)
      case False
      from 3(3)[OF refl refl False] sq
      obtain s' where "revealNeighbors s newBoard row col rest = Inr s'" by blast
      with False show ?thesis by (auto simp add: Let_def)
    next
      case True
      with 3(1)[OF refl refl True] sq obtain s1 where
        r1: "revealTile s newBoard (row + i) (col + j) = Inr (s1, newBoard)" by blast
      from 3(2)[OF refl refl True r1 refl] sq obtain s' where
        "revealNeighbors s1 newBoard row col rest = Inr s'" by blast
      with True r1 show ?thesis by (simp add: Let_def)
    qed
  qed
qed

section \<open>The cells a flood fill reaches\<close>

lemma settled_mono: "onlyReveals s s' \<Longrightarrow> settled s x \<Longrightarrow> settled s' x"
  unfolding onlyReveals_def settled_def by (metis Tile.select_convs(2) Tile.surjective Tile.update_convs(2))

lemma onlyReveals_fields:
  assumes "onlyReveals s s'"
  shows "adjacentMines (tiles s' x) = adjacentMines (tiles s x)"
    "isFlagged (tiles s' x) = isFlagged (tiles s x)"
    "isMine (tiles s' x) = isMine (tiles s x)"
    "isRevealed (tiles s x) \<Longrightarrow> isRevealed (tiles s' x)"
proof -
  from assms have d: "tiles s' x = tiles s x
          \<or> (\<not> isRevealed (tiles s x) \<and> \<not> isFlagged (tiles s x)
              \<and> tiles s' x = (tiles s x)\<lparr>isRevealed := True\<rparr>)"
    by (simp add: onlyReveals_def)
  from d show "adjacentMines (tiles s' x) = adjacentMines (tiles s x)" by auto
  from d show "isFlagged (tiles s' x) = isFlagged (tiles s x)" by auto
  from d show "isMine (tiles s' x) = isMine (tiles s x)" by auto
  from d show "isRevealed (tiles s x) \<Longrightarrow> isRevealed (tiles s' x)" by auto
qed

lemma newly_unsettled:
  assumes "onlyReveals s s'" "newlyRevealed s s' x"
  shows "\<not> settled s x"
proof -
  from assms(1) have d: "tiles s' x = tiles s x
          \<or> (\<not> isRevealed (tiles s x) \<and> \<not> isFlagged (tiles s x)
              \<and> tiles s' x = (tiles s x)\<lparr>isRevealed := True\<rparr>)"
    by (simp add: onlyReveals_def)
  with assms(2) show ?thesis by (auto simp add: newlyRevealed_def settled_def)
qed

lemma newly_split:
  assumes "newlyRevealed s s' x"
  shows "newlyRevealed s s1 x \<or> newlyRevealed s1 s' x"
  using assms by (auto simp add: newlyRevealed_def)

lemma newly_first:
  assumes "onlyReveals s1 s'" "newlyRevealed s s1 x"
  shows "newlyRevealed s s' x"
  using assms onlyReveals_fields(4)[OF assms(1)] by (simp add: newlyRevealed_def)

lemma newly_second:
  assumes "onlyReveals s s1" "newlyRevealed s1 s' x"
  shows "newlyRevealed s s' x"
  using assms onlyReveals_fields(4)[OF assms(1)] by (auto simp add: newlyRevealed_def)

lemma fill_mono:
  assumes "onlyReveals s s1" "fill s1 b row col r c"
  shows "fill s b row col r c"
  using assms(2)
proof (induction rule: fill.induct)
  case target
  then have "\<not> settled s (tileOf b row col)" using settled_mono[OF assms(1)] by blast
  then show ?case by (rule fill.target)
next
  case (spread r c i j)
  have z: "adjacentMines (tiles s (tileOf b r c)) = 0"
    using spread(2) onlyReveals_fields(1)[OF assms(1)] by simp
  have u: "\<not> settled s (tileOf b (r + i) (c + j))"
    using spread(5) settled_mono[OF assms(1)] by blast
  show ?case by (rule fill.spread[OF spread(6) z spread(3,4) u])
qed

lemma fill_trans:
  assumes "fill s b row col p q" "fill s b p q r c"
  shows "fill s b row col r c"
  using assms(2)
proof (induction rule: fill.induct)
  case target
  show ?case by (rule assms(1))
next
  case (spread r c i j)
  show ?case by (rule fill.spread[OF spread(6) spread(2,3,4,5)])
qed

lemma tileOf_inj:
  assumes "distinctCells b" "inBoard r c" "inBoard r' c'" "tileOf b r c = tileOf b r' c'"
  shows "r = r' \<and> c = c'"
proof -
  from assms(2,3) have "nat r < BOARD_SIZE" "nat c < BOARD_SIZE" "nat r' < BOARD_SIZE"
    "nat c' < BOARD_SIZE" unfolding inBoard_def by linarith+
  with assms(1,4) have "nat r = nat r' \<and> nat c = nat c'"
    unfolding distinctCells_def tileOf_def by blast
  with assms(2,3) show ?thesis unfolding inBoard_def by linarith
qed

lemma fillClosed_refl: "fillClosed s s b"
  by (simp add: fillClosed_def newlyRevealed_def)

lemma fillClosed_trans:
  assumes o1: "onlyReveals s s1" and o2: "onlyReveals s1 s'"
    and c1: "fillClosed s s1 b" and c2: "fillClosed s1 s' b"
  shows "fillClosed s s' b"
  unfolding fillClosed_def
proof (intro allI impI)
  fix r c
  assume h: "inBoard r c \<and> newlyRevealed s s' (tileOf b r c)
              \<and> adjacentMines (tiles s' (tileOf b r c)) = 0"
  show "\<forall>(i, j) \<in> set offsets. inBoard (r + i) (c + j) \<longrightarrow>
           settled s' (tileOf b (r + i) (c + j))"
  proof (cases "newlyRevealed s s1 (tileOf b r c)")
    case True
    have "adjacentMines (tiles s1 (tileOf b r c)) = 0"
      using h onlyReveals_fields(1)[OF o2] by simp
    with c1 h True have "\<forall>(i, j) \<in> set offsets. inBoard (r + i) (c + j) \<longrightarrow>
           settled s1 (tileOf b (r + i) (c + j))"
      unfolding fillClosed_def by blast
    then show ?thesis using settled_mono[OF o2] by blast
  next
    case False
    with h newly_split[of s s' "tileOf b r c" s1]
    have "newlyRevealed s1 s' (tileOf b r c)" by blast
    with c2 h show ?thesis unfolding fillClosed_def by blast
  qed
qed

lemma fill_unsettled:
  assumes "fill s b row col r c"
  shows "\<not> settled s (tileOf b row col)"
  using assms by (induction rule: fill.induct) simp_all

lemma write_newly:
  assumes "newlyRevealed s (writeTile s a t) x"
  shows "x = a"
  using assms by (cases "x = a") (simp_all add: newlyRevealed_def)

lemma reveal_fill:
  "square b \<and> distinctCells b \<and> inBoard r c \<longrightarrow>
     (\<forall>s'. revealTile s b r c = Inr (s', b) \<longrightarrow>
        settled s' (tileOf b r c) \<and> fillClosed s s' b
        \<and> (\<forall>r' c'. inBoard r' c' \<and> newlyRevealed s s' (tileOf b r' c') \<longrightarrow>
              fill s b r c r' c'))"
  "square b \<and> distinctCells b \<longrightarrow>
     (\<forall>s'. revealNeighbors s b r c ps = Inr s' \<longrightarrow>
        (\<forall>(i, j) \<in> set ps. inBoard (r + i) (c + j) \<longrightarrow> settled s' (tileOf b (r + i) (c + j)))
        \<and> fillClosed s s' b
        \<and> (\<forall>r' c'. inBoard r' c' \<and> newlyRevealed s s' (tileOf b r' c') \<longrightarrow>
              (\<exists>(i, j) \<in> set ps. inBoard (r + i) (c + j) \<and> fill s b (r + i) (c + j) r' c')))"
proof (induct s b r c and s b r c ps rule: revealTile_revealNeighbors.induct)
  case (1 s b row col)
  show ?case
  proof (intro impI allI)
    fix s'
    assume pre: "square b \<and> distinctCells b \<and> inBoard row col"
      and res: "revealTile s b row col = Inr (s', b)"
    from pre have sq: "square b" and dc: "distinctCells b" and inb: "inBoard row col"
      by simp_all
    define a where "a = tileOf b row col"
    have Some: "tileAt b row col = Some a"
      using square_tileAt[of b row col] sq inb by (simp add: a_def tileOf_def inBoard_def)
    let ?s1 = "writeTile s a ((tiles s a)\<lparr>isRevealed := True\<rparr>)"
    have only_a: "r' = row \<and> c' = col"
      if "inBoard r' c'" "newlyRevealed s ?s1 (tileOf b r' c')" for r' c'
    proof -
      from write_newly[OF that(2)] have "tileOf b r' c' = tileOf b row col" by (simp add: a_def)
      from tileOf_inj[OF dc that(1) inb this] show ?thesis .
    qed
    show "settled s' (tileOf b row col) \<and> fillClosed s s' b
        \<and> (\<forall>r' c'. inBoard r' c' \<and> newlyRevealed s s' (tileOf b r' c') \<longrightarrow>
              fill s b row col r' c')"
    proof (cases "isRevealed (tiles s a) \<or> isFlagged (tiles s a)")
      case True
      with res Some have e: "s' = s" by (simp add: revealTile.simps)
      from True have "settled s (tileOf b row col)" by (simp add: settled_def a_def)
      then show ?thesis unfolding e
        by (simp add: fillClosed_refl newlyRevealed_def)
    next
      case False
      then have w: "onlyReveals s ?s1" by (simp add: onlyReveals_write)
      from False have un: "\<not> settled s (tileOf b row col)" by (simp add: settled_def a_def)
      have tg: "fill s b row col row col" using un by (rule fill.target)
      have st1: "settled ?s1 (tileOf b row col)" by (simp add: settled_def a_def)
      show ?thesis
      proof (cases "adjacentMines (tiles ?s1 a) = 0")
        case nz: False
        with res Some False have e: "s' = ?s1"
          by (auto simp add: revealTile.simps Let_def)
        have cl: "fillClosed s ?s1 b"
          unfolding fillClosed_def
        proof (intro allI impI)
          fix r' c'
          assume h: "inBoard r' c' \<and> newlyRevealed s ?s1 (tileOf b r' c')
              \<and> adjacentMines (tiles ?s1 (tileOf b r' c')) = 0"
          with only_a[of r' c'] have "tileOf b r' c' = a" by (simp add: a_def)
          with h nz have False by simp
          then show "\<forall>(i, j) \<in> set offsets. inBoard (r' + i) (c' + j) \<longrightarrow>
              settled ?s1 (tileOf b (r' + i) (c' + j))" ..
        qed
        have fl: "\<forall>r' c'. inBoard r' c' \<and> newlyRevealed s ?s1 (tileOf b r' c') \<longrightarrow>
              fill s b row col r' c'"
        proof (intro allI impI)
          fix r' c'
          assume h: "inBoard r' c' \<and> newlyRevealed s ?s1 (tileOf b r' c')"
          with only_a[of r' c'] have "r' = row \<and> c' = col" by simp
          with tg show "fill s b row col r' c'" by simp
        qed
        from st1 cl fl show ?thesis unfolding e by simp
      next
        case z: True
        from res Some False z
        have rn: "revealNeighbors ?s1 b row col offsets = Inr s'"
          by (auto simp add: revealTile.simps Let_def split: sum.splits)
        from reveal_onlyReveals(2)[of ?s1 b row col offsets] rn
        have o2: "onlyReveals ?s1 s'" by blast
        from 1[OF refl Some False refl z] sq dc rn have
          q2: "\<forall>(i, j) \<in> set offsets. inBoard (row + i) (col + j) \<longrightarrow>
                 settled s' (tileOf b (row + i) (col + j))"
          and q3: "fillClosed ?s1 s' b"
          and q4: "\<forall>r' c'. inBoard r' c' \<and> newlyRevealed ?s1 s' (tileOf b r' c') \<longrightarrow>
              (\<exists>(i, j) \<in> set offsets. inBoard (row + i) (col + j)
                  \<and> fill ?s1 b (row + i) (col + j) r' c')"
          by blast+
        have z0: "adjacentMines (tiles s (tileOf b row col)) = 0"
          using z by (simp add: a_def)
        have p2: "settled s' (tileOf b row col)" using st1 o2 by (rule settled_mono[rotated])
        have p3: "fillClosed s s' b"
          unfolding fillClosed_def
        proof (intro allI impI)
          fix r' c'
          assume h: "inBoard r' c' \<and> newlyRevealed s s' (tileOf b r' c')
              \<and> adjacentMines (tiles s' (tileOf b r' c')) = 0"
          show "\<forall>(i, j) \<in> set offsets. inBoard (r' + i) (c' + j) \<longrightarrow>
              settled s' (tileOf b (r' + i) (c' + j))"
          proof (cases "newlyRevealed s ?s1 (tileOf b r' c')")
            case True
            with only_a[of r' c'] h have "r' = row \<and> c' = col" by simp
            with q2 show ?thesis by simp
          next
            case False
            with h newly_split[of s s' "tileOf b r' c'" ?s1]
            have "newlyRevealed ?s1 s' (tileOf b r' c')" by blast
            with q3 h show ?thesis unfolding fillClosed_def by blast
          qed
        qed
        have p4: "\<forall>r' c'. inBoard r' c' \<and> newlyRevealed s s' (tileOf b r' c') \<longrightarrow>
              fill s b row col r' c'"
        proof (intro allI impI)
          fix r' c'
          assume h: "inBoard r' c' \<and> newlyRevealed s s' (tileOf b r' c')"
          show "fill s b row col r' c'"
          proof (cases "newlyRevealed s ?s1 (tileOf b r' c')")
            case True
            with only_a[of r' c'] h have "r' = row \<and> c' = col" by simp
            with tg show ?thesis by simp
          next
            case False
            with h newly_split[of s s' "tileOf b r' c'" ?s1]
            have "newlyRevealed ?s1 s' (tileOf b r' c')" by blast
            with q4 h obtain i j where ij: "(i, j) \<in> set offsets"
              and pin: "inBoard (row + i) (col + j)"
              and f1: "fill ?s1 b (row + i) (col + j) r' c'" by blast
            have f: "fill s b (row + i) (col + j) r' c'" using w f1 by (rule fill_mono)
            from fill_unsettled[OF f] have pu: "\<not> settled s (tileOf b (row + i) (col + j))" .
            have "fill s b row col (row + i) (col + j)"
              by (rule fill.spread[OF tg z0 ij pin pu])
            then show ?thesis using f by (rule fill_trans)
          qed
        qed
        from p2 p3 p4 show ?thesis by simp
      qed
    qed
  qed
next
  case (2 s newBoard row col)
  show ?case by (simp add: fillClosed_refl newlyRevealed_def)
next
  case (3 s newBoard row col i j rest)
  let ?inb = "0 \<le> row + i \<and> row + i < int BOARD_SIZE \<and> 0 \<le> col + j \<and> col + j < int BOARD_SIZE"
  show ?case
  proof (intro impI allI)
    fix s'
    assume pre: "square newBoard \<and> distinctCells newBoard"
      and res: "revealNeighbors s newBoard row col ((i, j) # rest) = Inr s'"
    show "(\<forall>(i, j) \<in> set ((i, j) # rest). inBoard (row + i) (col + j) \<longrightarrow>
              settled s' (tileOf newBoard (row + i) (col + j)))
        \<and> fillClosed s s' newBoard
        \<and> (\<forall>r' c'. inBoard r' c' \<and> newlyRevealed s s' (tileOf newBoard r' c') \<longrightarrow>
              (\<exists>(i, j) \<in> set ((i, j) # rest). inBoard (row + i) (col + j)
                  \<and> fill s newBoard (row + i) (col + j) r' c'))"
    proof (cases ?inb)
      case False
      then have ni: "\<not> inBoard (row + i) (col + j)" by (simp add: inBoard_def)
      from res False have "revealNeighbors s newBoard row col rest = Inr s'"
        by (simp add: Let_def)
      with 3(3)[OF refl refl False] pre have
        q2: "\<forall>(i, j) \<in> set rest. inBoard (row + i) (col + j) \<longrightarrow>
                 settled s' (tileOf newBoard (row + i) (col + j))"
        and q3: "fillClosed s s' newBoard"
        and q4: "\<forall>r' c'. inBoard r' c' \<and> newlyRevealed s s' (tileOf newBoard r' c') \<longrightarrow>
              (\<exists>(i, j) \<in> set rest. inBoard (row + i) (col + j)
                  \<and> fill s newBoard (row + i) (col + j) r' c')"
        by blast+
      from q2 ni have a: "\<forall>(i, j) \<in> set ((i, j) # rest). inBoard (row + i) (col + j) \<longrightarrow>
              settled s' (tileOf newBoard (row + i) (col + j))" by simp
      from q4 have c: "\<forall>r' c'. inBoard r' c' \<and> newlyRevealed s s' (tileOf newBoard r' c') \<longrightarrow>
              (\<exists>(i, j) \<in> set ((i, j) # rest). inBoard (row + i) (col + j)
                  \<and> fill s newBoard (row + i) (col + j) r' c')"
        by (metis (mono_tags, lifting) list.set_intros(2) case_prodE case_prodI)
      from a q3 c show ?thesis by blast
    next
      case True
      then have pin: "inBoard (row + i) (col + j)" by (simp add: inBoard_def)
      from res True obtain s1 nb where
        r1: "revealTile s newBoard (row + i) (col + j) = Inr (s1, nb)"
        and r2: "revealNeighbors s1 newBoard row col rest = Inr s'"
        by (auto simp add: Let_def split: sum.splits)
      from reveal_onlyReveals(1)[of s newBoard "row + i" "col + j"] r1
      have nb: "nb = newBoard" and o1: "onlyReveals s s1" by blast+
      from reveal_onlyReveals(2)[of s1 newBoard row col rest] r2
      have o2: "onlyReveals s1 s'" by blast
      from 3(1)[OF refl refl True] pre pin r1[unfolded nb] have
        p2: "settled s1 (tileOf newBoard (row + i) (col + j))"
        and p3: "fillClosed s s1 newBoard"
        and p4: "\<forall>r' c'. inBoard r' c' \<and> newlyRevealed s s1 (tileOf newBoard r' c') \<longrightarrow>
              fill s newBoard (row + i) (col + j) r' c'"
        by blast+
      from 3(2)[OF refl refl True r1 refl] pre r2 have
        q2: "\<forall>(i, j) \<in> set rest. inBoard (row + i) (col + j) \<longrightarrow>
                 settled s' (tileOf newBoard (row + i) (col + j))"
        and q3: "fillClosed s1 s' newBoard"
        and q4: "\<forall>r' c'. inBoard r' c' \<and> newlyRevealed s1 s' (tileOf newBoard r' c') \<longrightarrow>
              (\<exists>(i, j) \<in> set rest. inBoard (row + i) (col + j)
                  \<and> fill s1 newBoard (row + i) (col + j) r' c')"
        by blast+
      have hd: "settled s' (tileOf newBoard (row + i) (col + j))"
        using o2 p2 by (rule settled_mono)
      from q2 hd have a: "\<forall>(i, j) \<in> set ((i, j) # rest). inBoard (row + i) (col + j) \<longrightarrow>
              settled s' (tileOf newBoard (row + i) (col + j))" by simp
      have b: "fillClosed s s' newBoard" by (rule fillClosed_trans[OF o1 o2 p3 q3])
      have c: "\<forall>r' c'. inBoard r' c' \<and> newlyRevealed s s' (tileOf newBoard r' c') \<longrightarrow>
              (\<exists>(i, j) \<in> set ((i, j) # rest). inBoard (row + i) (col + j)
                  \<and> fill s newBoard (row + i) (col + j) r' c')"
      proof (intro allI impI)
        fix r' c'
        assume h: "inBoard r' c' \<and> newlyRevealed s s' (tileOf newBoard r' c')"
        show "\<exists>(i, j) \<in> set ((i, j) # rest). inBoard (row + i) (col + j)
                  \<and> fill s newBoard (row + i) (col + j) r' c'"
        proof (cases "newlyRevealed s s1 (tileOf newBoard r' c')")
          case True
          with p4 h have "fill s newBoard (row + i) (col + j) r' c'" by blast
          with pin show ?thesis by simp
        next
          case False
          with h newly_split[of s s' "tileOf newBoard r' c'" s1]
          have "newlyRevealed s1 s' (tileOf newBoard r' c')" by blast
          with q4 h obtain i' j' where ij: "(i', j') \<in> set rest"
            and pin': "inBoard (row + i') (col + j')"
            and f1: "fill s1 newBoard (row + i') (col + j') r' c'" by blast
          have "fill s newBoard (row + i') (col + j') r' c'" using o1 f1 by (rule fill_mono)
          with ij pin' show ?thesis by auto
        qed
      qed
      from a b c show ?thesis by blast
    qed
  qed
qed

lemma fill_newly:
  assumes o: "onlyReveals s s'" and p2: "settled s' (tileOf b row col)"
    and cl: "fillClosed s s' b" and inb: "inBoard row col"
    and f: "fill s b row col r c"
  shows "inBoard r c \<and> newlyRevealed s s' (tileOf b r c)"
  using f
proof (induction rule: fill.induct)
  case target
  from target have u: "\<not> isRevealed (tiles s (tileOf b row col))"
    "\<not> isFlagged (tiles s (tileOf b row col))" by (simp_all add: settled_def)
  from u(2) onlyReveals_fields(2)[OF o] have "\<not> isFlagged (tiles s' (tileOf b row col))"
    by simp
  with p2 have "isRevealed (tiles s' (tileOf b row col))" by (simp add: settled_def)
  with u(1) inb show ?case by (simp add: newlyRevealed_def)
next
  case (spread r c i j)
  from spread(2) onlyReveals_fields(1)[OF o]
  have z: "adjacentMines (tiles s' (tileOf b r c)) = 0" by simp
  from cl spread(6) z have "\<forall>(i, j) \<in> set offsets. inBoard (r + i) (c + j) \<longrightarrow>
           settled s' (tileOf b (r + i) (c + j))"
    unfolding fillClosed_def by blast
  with spread(3,4) have st: "settled s' (tileOf b (r + i) (c + j))" by blast
  from spread(5) have u: "\<not> isRevealed (tiles s (tileOf b (r + i) (c + j)))"
    "\<not> isFlagged (tiles s (tileOf b (r + i) (c + j)))" by (simp_all add: settled_def)
  from u(2) onlyReveals_fields(2)[OF o]
  have "\<not> isFlagged (tiles s' (tileOf b (r + i) (c + j)))" by simp
  with st have "isRevealed (tiles s' (tileOf b (r + i) (c + j)))" by (simp add: settled_def)
  with u(1) spread(4) show ?case by (simp add: newlyRevealed_def)
qed

lemma revealTile_fills:
  assumes "square b" "distinctCells b" "inBoard row col"
  shows "\<exists>s'. revealTile s b row col = Inr (s', b) \<and> onlyReveals s s'
    \<and> settled s' (tileOf b row col) \<and> fillClosed s s' b
    \<and> (\<forall>r c. inBoard r c \<longrightarrow> newlyRevealed s s' (tileOf b r c) = fill s b row col r c)"
proof -
  from reveal_returns(1)[of b row col s] assms(1,3)
  obtain s' where r: "revealTile s b row col = Inr (s', b)" by (auto simp add: inBoard_def)
  with reveal_onlyReveals(1)[of s b row col] have o: "onlyReveals s s'" by blast
  from reveal_fill(1)[of b row col s] assms r have
    p2: "settled s' (tileOf b row col)" and p3: "fillClosed s s' b"
    and p4: "\<forall>r c. inBoard r c \<and> newlyRevealed s s' (tileOf b r c) \<longrightarrow> fill s b row col r c"
    by blast+
  have e: "\<forall>r c. inBoard r c \<longrightarrow> newlyRevealed s s' (tileOf b r c) = fill s b row col r c"
  proof (intro allI impI)
    fix r c
    assume i: "inBoard r c"
    show "newlyRevealed s s' (tileOf b r c) = fill s b row col r c"
    proof
      assume "newlyRevealed s s' (tileOf b r c)"
      with p4 i show "fill s b row col r c" by blast
    next
      assume "fill s b row col r c"
      from fill_newly[OF o p2 p3 assms(3) this] show "newlyRevealed s s' (tileOf b r c)" by simp
    qed
  qed
  show ?thesis
  proof (intro exI conjI)
  qed (fact r o p2 p3 e)+
qed

section \<open>Counting cells\<close>

lemma card_cells_filter:
  "card {(r, c). r < length b \<and> c < length (b ! r) \<and> P (b ! r ! c)} = length (filter P (concat b))"
proof (induction b)
  case Nil
  then show ?case by simp
next
  case (Cons row rows)
  let ?A = "{(r, c). r < length (row # rows) \<and> c < length ((row # rows) ! r) \<and> P ((row # rows) ! r ! c)}"
  let ?H = "(\<lambda>c. (0::nat, c)) ` {c. c < length row \<and> P (row ! c)}"
  let ?T = "(\<lambda>(r, c). (Suc r, c)) ` {(r, c). r < length rows \<and> c < length (rows ! r) \<and> P (rows ! r ! c)}"
  have fin: "finite {(r, c). r < length rows \<and> c < length (rows ! r) \<and> P (rows ! r ! c)}"
  proof (rule finite_subset)
    show "{(r, c). r < length rows \<and> c < length (rows ! r) \<and> P (rows ! r ! c)}
          \<subseteq> (SIGMA r:{..<length rows}. {..<length (rows ! r)})" by auto
    show "finite (SIGMA r:{..<length rows}. {..<length (rows ! r)})" by simp
  qed
  have split: "?A = ?H \<union> ?T"
  proof (rule set_eqI)
    fix x :: "nat \<times> nat"
    obtain r c where x: "x = (r, c)" by (cases x)
    show "x \<in> ?A \<longleftrightarrow> x \<in> ?H \<union> ?T"
      unfolding x by (cases r) (auto simp add: image_iff)
  qed
  have disj: "?H \<inter> ?T = {}" by auto
  have cH: "card ?H = length (filter P row)"
    by (simp add: card_image inj_on_def length_filter_conv_card)
  have cT: "card ?T = length (filter P (concat rows))"
    using Cons.IH by (simp add: card_image inj_on_def)
  have "card ?A = card ?H + card ?T"
    unfolding split using fin by (intro card_Un_disjoint disj) auto
  then show ?case using cH cT by simp
qed

lemma checkWin_count:
  "checkWinCondition s b \<longleftrightarrow> card (revealedSafeCells s b) = BOARD_SIZE * BOARD_SIZE - NUM_MINES"
  using card_cells_filter[of b "\<lambda>a. isRevealed (tiles s a) \<and> \<not> isMine (tiles s a)"]
  by (simp add: checkWinCondition_def revealedSafeCells_def cell_def)

section \<open>Counting the mines around a cell\<close>

lemma offsets_iff:
  "(i, j) \<in> set offsets \<longleftrightarrow> -1 \<le> i \<and> i \<le> 1 \<and> -1 \<le> j \<and> j \<le> 1 \<and> \<not> (i = 0 \<and> j = 0)"
proof -
  have i: "-1 \<le> i \<and> i \<le> 1 \<longleftrightarrow> i = -1 \<or> i = 0 \<or> i = 1" by arith
  have j: "-1 \<le> j \<and> j \<le> 1 \<longleftrightarrow> j = -1 \<or> j = 0 \<or> j = 1" by arith
  have "(i, j) \<in> set offsets \<longleftrightarrow>
          (i = -1 \<or> i = 0 \<or> i = 1) \<and> (j = -1 \<or> j = 0 \<or> j = 1) \<and> \<not> (i = 0 \<and> j = 0)"
    unfolding offsets_def by auto
  then show ?thesis using i j by blast
qed

lemma distinct_offsets: "distinct offsets"
  by (simp add: offsets_def)

lemma countMines_filter:
  assumes "square nb"
  shows "countMines s nb row col offs k
           = Inr (k + length (filter (\<lambda>(i, j). mineAt s nb (row + i) (col + j)) offs))"
proof (induction offs arbitrary: k)
  case Nil
  then show ?case by simp
next
  case (Cons p offs)
  obtain i j where p: "p = (i, j)" by (cases p)
  show ?case
  proof (cases "0 \<le> row + i \<and> row + i < int BOARD_SIZE \<and> 0 \<le> col + j \<and> col + j < int BOARD_SIZE")
    case False
    then show ?thesis unfolding p using Cons.IH by (auto simp add: Let_def mineAt_def)
  next
    case True
    with assms have t: "tileAt nb (row + i) (col + j) = Some (nb ! nat (row + i) ! nat (col + j))"
      by (simp add: square_tileAt)
    show ?thesis unfolding p using True t Cons.IH
      by (simp add: Let_def mineAt_def cell_def)
  qed
qed

lemma card_neighbours:
  "card {(r', c'). r' < BOARD_SIZE \<and> c' < BOARD_SIZE \<and> (r', c') \<noteq> (r, c)
                     \<and> r' \<le> r + 1 \<and> r \<le> r' + 1 \<and> c' \<le> c + 1 \<and> c \<le> c' + 1
                     \<and> isMine (cell s b r' c')}
   = length (filter (\<lambda>(i, j). mineAt s b (int r + i) (int c + j)) offsets)"
  (is "card ?S = length (filter ?Q offsets)")
proof -
  let ?f = "\<lambda>(i, j). (nat (int r + i), nat (int c + j))"
  have inj: "inj_on ?f (set (filter ?Q offsets))"
  proof (rule inj_onI)
    fix p q
    assume p: "p \<in> set (filter ?Q offsets)" and q: "q \<in> set (filter ?Q offsets)"
      and e: "?f p = ?f q"
    obtain i j where pp: "p = (i, j)" by (cases p)
    obtain i' j' where qq: "q = (i', j')" by (cases q)
    from p q have "0 \<le> int r + i" "0 \<le> int c + j" "0 \<le> int r + i'" "0 \<le> int c + j'"
      unfolding pp qq by (simp_all add: mineAt_def)
    with e show "p = q" unfolding pp qq by (clarsimp; linarith)
  qed
  have img: "?f ` set (filter ?Q offsets) = ?S"
  proof (rule set_eqI)
    fix x :: "nat \<times> nat"
    obtain r' c' where x: "x = (r', c')" by (cases x)
    show "x \<in> ?f ` set (filter ?Q offsets) \<longleftrightarrow> x \<in> ?S"
    proof
      assume "x \<in> ?f ` set (filter ?Q offsets)"
      then obtain i j where ij: "(i, j) \<in> set offsets" "mineAt s b (int r + i) (int c + j)"
        "r' = nat (int r + i)" "c' = nat (int c + j)"
        unfolding x by auto
      from ij(1) have b: "-1 \<le> i" "i \<le> 1" "-1 \<le> j" "j \<le> 1" "\<not> (i = 0 \<and> j = 0)"
        by (simp_all add: offsets_iff)
      from ij(2) have m: "0 \<le> int r + i" "int r + i < int BOARD_SIZE" "0 \<le> int c + j"
        "int c + j < int BOARD_SIZE" "isMine (cell s b r' c')"
        by (simp_all add: mineAt_def ij(3,4))
      have ir: "int r' = int r + i" and ic: "int c' = int c + j"
        using m ij(3,4) by simp_all
      have "r' < BOARD_SIZE" "c' < BOARD_SIZE" using m ir ic by linarith+
      moreover have "(r', c') \<noteq> (r, c)"
      proof
        assume "(r', c') = (r, c)"
        then have "i = 0" "j = 0" using ir ic by simp_all
        with b(5) show False by simp
      qed
      moreover have "r' \<le> r + 1" "r \<le> r' + 1" "c' \<le> c + 1" "c \<le> c' + 1"
        using b ir ic by linarith+
      ultimately show "x \<in> ?S" unfolding x using m(5) by simp
    next
      assume "x \<in> ?S"
      then have h: "r' < BOARD_SIZE" "c' < BOARD_SIZE" "(r', c') \<noteq> (r, c)"
        "r' \<le> r + 1" "r \<le> r' + 1" "c' \<le> c + 1" "c \<le> c' + 1" "isMine (cell s b r' c')"
        unfolding x by simp_all
      let ?i = "int r' - int r" and ?j = "int c' - int c"
      have "(?i, ?j) \<in> set offsets" using h by (simp add: offsets_iff)
      moreover have "mineAt s b (int r + ?i) (int c + ?j)" using h by (simp add: mineAt_def)
      moreover have "?f (?i, ?j) = (r', c')" by simp
      ultimately have mem: "(?i, ?j) \<in> set (filter ?Q offsets)"
        and eq: "(r', c') = ?f (?i, ?j)"
        by simp_all
      show "x \<in> ?f ` set (filter ?Q offsets)"
        unfolding x image_iff using mem eq by blast
    qed
  qed
  have "card ?S = card (?f ` set (filter ?Q offsets))" by (simp only: img)
  also have "\<dots> = card (set (filter ?Q offsets))" by (rule card_image[OF inj])
  also have "\<dots> = length (filter ?Q offsets)"
    by (rule distinct_card) (simp add: distinct_offsets)
  finally show ?thesis .
qed

lemma countMines_spec:
  assumes "square nb"
  shows "countMines s nb (int r) (int c) offsets 0 = Inr (mineNeighbours s nb r c)"
  unfolding mineNeighbours_def card_neighbours
  using countMines_filter[OF assms, of s "int r" "int c" offsets 0] by simp

section \<open>The adjacency pass\<close>

lemma square_nth:
  assumes "square b" "r < BOARD_SIZE"
  shows "r < length b" "length (b ! r) = BOARD_SIZE"
  using assms by (simp_all add: square_def list_all_length)

lemma square_setTile:
  assumes "square b"
  shows "square (setTile b row col a)"
proof -
  have "length (b[row := (b ! row)[col := a]] ! n) = BOARD_SIZE" if "n < BOARD_SIZE" for n
  proof (cases "n = row")
    case True
    with that assms show ?thesis by (simp add: square_def list_all_length)
  next
    case False
    with that assms show ?thesis by (simp add: square_def list_all_length)
  qed
  with assms show ?thesis by (simp add: square_def setTile_def list_all_length)
qed

lemma setTile_nth:
  assumes "square b" "row < BOARD_SIZE" "col < BOARD_SIZE" "r < BOARD_SIZE" "c < BOARD_SIZE"
  shows "setTile b row col a ! r ! c = (if r = row \<and> c = col then a else b ! r ! c)"
  using assms square_nth[OF assms(1), of row] square_nth[OF assms(1), of r]
  by (auto simp add: setTile_def nth_list_update)

lemma allocated_nth:
  assumes "allocated s b" "square b" "r < BOARD_SIZE" "c < BOARD_SIZE"
  shows "b ! r ! c < nextRef s"
proof -
  from assms have "r < length b" "c < length (b ! r)" by (simp_all add: square_nth)
  then have "b ! r ! c \<in> set (concat b)" by (auto intro!: bexI[of _ "b ! r"])
  with assms(1) show ?thesis unfolding allocated_def list_all_iff by blast
qed

lemma set_concat_update: "set (concat (b[i := xs])) \<subseteq> set xs \<union> set (concat b)"
proof
  fix x assume "x \<in> set (concat (b[i := xs]))"
  then obtain ys where ys: "ys \<in> set (b[i := xs])" "x \<in> set ys" by auto
  have "set (b[i := xs]) \<subseteq> insert xs (set b)" by (rule set_update_subset_insert)
  with ys(1) have "ys = xs \<or> ys \<in> set b" by auto
  with ys(2) show "x \<in> set xs \<union> set (concat b)" by auto
qed

lemma set_concat_setTile: "set (concat (setTile b row col a)) \<subseteq> insert a (set (concat b))"
proof (cases "row < length b")
  case False
  then show ?thesis by (auto simp add: setTile_def list_update_beyond)
next
  case True
  then have row: "set (b ! row) \<subseteq> set (concat b)" by (auto intro: nth_mem)
  have "set ((b ! row)[col := a]) \<subseteq> insert a (set (b ! row))"
    by (rule set_update_subset_insert)
  with row have "set ((b ! row)[col := a]) \<subseteq> insert a (set (concat b))" by blast
  with set_concat_update[of b row "(b ! row)[col := a]"] show ?thesis
    unfolding setTile_def by blast
qed

lemma allocated_setTile:
  assumes "allocated s b" "nextRef s \<le> nextRef s'" "a < nextRef s'"
  shows "allocated s' (setTile b row col a)"
  unfolding allocated_def list_all_iff
proof
  fix x assume "x \<in> set (concat (setTile b row col a))"
  with set_concat_setTile have "x = a \<or> x \<in> set (concat b)" by blast
  then show "x < nextRef s'"
  proof
    assume "x = a" with assms(3) show ?thesis by simp
  next
    assume "x \<in> set (concat b)"
    with assms(1) have "x < nextRef s" unfolding allocated_def list_all_iff by blast
    with assms(2) show ?thesis by simp
  qed
qed

lemma mineNeighbours_cong:
  assumes "\<And>r c. r < BOARD_SIZE \<Longrightarrow> c < BOARD_SIZE \<Longrightarrow> isMine (cell s' b' r c) = isMine (cell s b r c)"
  shows "mineNeighbours s' b' r c = mineNeighbours s b r c"
  unfolding mineNeighbours_def
  by (rule arg_cong[where f = card], rule Collect_cong) (simp add: assms split_def cong: conj_cong)

lemma adjacentLoop_spec:
  assumes "square nb" "allocated s nb"
    and "\<forall>p \<in> set cells. fst p < BOARD_SIZE \<and> snd p < BOARD_SIZE"
  shows "\<exists>s' nb'. adjacentLoop s nb cells = Inr (s', nb') \<and> square nb' \<and> allocated s' nb'
           \<and> nextRef s \<le> nextRef s' \<and> (\<forall>x < nextRef s. tiles s' x = tiles s x)
           \<and> (\<forall>r < BOARD_SIZE. \<forall>c < BOARD_SIZE.
                 cell s' nb' r c =
                   (if (r, c) \<in> set cells \<and> \<not> isMine (cell s nb r c)
                    then (cell s nb r c)\<lparr>adjacentMines := mineNeighbours s nb r c\<rparr>
                    else cell s nb r c))"
  using assms
proof (induction cells arbitrary: s nb)
  case Nil
  then show ?case by simp
next
  case (Cons p rest)
  obtain row col where p: "p = (row, col)" by (cases p)
  from Cons.prems(3) have rc: "row < BOARD_SIZE" "col < BOARD_SIZE"
    and rest: "\<forall>p \<in> set rest. fst p < BOARD_SIZE \<and> snd p < BOARD_SIZE"
    by (simp_all add: p)
  define a where "a = nb ! row ! col"
  have t: "tileAt nb (int row) (int col) = Some a"
    using square_tileAt[of nb "int row" "int col"] Cons.prems(1) rc by (simp add: a_def)
  show ?case
  proof (cases "isMine (tiles s a)")
    case True
    then have step: "adjacentLoop s nb (p # rest) = adjacentLoop s nb rest"
      by (simp add: p t)
    from Cons.IH[OF Cons.prems(1,2) rest] obtain s' nb' where
      ih: "adjacentLoop s nb rest = Inr (s', nb')" "square nb'" "allocated s' nb'"
        "nextRef s \<le> nextRef s'" "\<forall>x < nextRef s. tiles s' x = tiles s x"
        "\<forall>r < BOARD_SIZE. \<forall>c < BOARD_SIZE.
                 cell s' nb' r c =
                   (if (r, c) \<in> set rest \<and> \<not> isMine (cell s nb r c)
                    then (cell s nb r c)\<lparr>adjacentMines := mineNeighbours s nb r c\<rparr>
                    else cell s nb r c)"
      by blast
    have "\<forall>r < BOARD_SIZE. \<forall>c < BOARD_SIZE.
                 cell s' nb' r c =
                   (if (r, c) \<in> set (p # rest) \<and> \<not> isMine (cell s nb r c)
                    then (cell s nb r c)\<lparr>adjacentMines := mineNeighbours s nb r c\<rparr>
                    else cell s nb r c)"
    proof (intro allI impI)
      fix r c assume rr: "r < BOARD_SIZE" and cc: "c < BOARD_SIZE"
      from ih(6) rr cc have e: "cell s' nb' r c =
                   (if (r, c) \<in> set rest \<and> \<not> isMine (cell s nb r c)
                    then (cell s nb r c)\<lparr>adjacentMines := mineNeighbours s nb r c\<rparr>
                    else cell s nb r c)" by blast
      show "cell s' nb' r c =
                   (if (r, c) \<in> set (p # rest) \<and> \<not> isMine (cell s nb r c)
                    then (cell s nb r c)\<lparr>adjacentMines := mineNeighbours s nb r c\<rparr>
                    else cell s nb r c)"
      proof (cases "(r, c) = (row, col)")
        case same: True
        then have "isMine (cell s nb r c)" using True by (simp add: cell_def a_def)
        then show ?thesis unfolding e by simp
      next
        case diff: False
        then show ?thesis unfolding e p by auto
      qed
    qed
    note cells = this
    show ?thesis
    proof (intro exI conjI)
      show "adjacentLoop s nb (p # rest) = Inr (s', nb')" using step ih(1) by simp
    qed (fact ih(2) ih(3) ih(4) ih(5) cells)+
  next
    case False
    define m where "m = mineNeighbours s nb row col"
    define s1 where "s1 = fst (newTile s ((tiles s a)\<lparr>adjacentMines := m\<rparr>))"
    define nb1 where "nb1 = setTile nb row col (nextRef s)"
    have cm: "countMines s nb (int row) (int col) offsets 0 = Inr m"
      using countMines_spec[OF Cons.prems(1)] by (simp add: m_def)
    have step: "adjacentLoop s nb (p # rest) = adjacentLoop s1 nb1 rest"
      using False by (simp add: p t cm s1_def nb1_def newTile_def)
    have s1: "nextRef s1 = Suc (nextRef s)"
      "\<And>x. tiles s1 x = (if x = nextRef s then (tiles s a)\<lparr>adjacentMines := m\<rparr> else tiles s x)"
      by (simp_all add: s1_def newTile_def)
    have sq1: "square nb1" using Cons.prems(1) by (simp add: nb1_def square_setTile)
    have al1: "allocated s1 nb1"
      unfolding nb1_def by (rule allocated_setTile[OF Cons.prems(2)]) (simp_all add: s1)
    have c1: "cell s1 nb1 r c = (if r = row \<and> c = col then (cell s nb r c)\<lparr>adjacentMines := m\<rparr>
                                 else cell s nb r c)"
      if "r < BOARD_SIZE" "c < BOARD_SIZE" for r c
    proof -
      have lt: "nb ! r ! c < nextRef s" by (rule allocated_nth[OF Cons.prems(2,1) that])
      have nth: "nb1 ! r ! c = (if r = row \<and> c = col then nextRef s else nb ! r ! c)"
        unfolding nb1_def by (rule setTile_nth[OF Cons.prems(1) rc that])
      show ?thesis
      proof (cases "r = row \<and> c = col")
        case True
        then show ?thesis using nth by (simp add: cell_def s1 a_def)
      next
        case False
        then have "nb1 ! r ! c = nb ! r ! c" using nth by auto
        then show ?thesis using lt False by (auto simp add: cell_def s1)
      qed
    qed
    have mine1: "isMine (cell s1 nb1 r c) = isMine (cell s nb r c)"
      if "r < BOARD_SIZE" "c < BOARD_SIZE" for r c
      using c1[OF that] by simp
    have mn1: "mineNeighbours s1 nb1 r c = mineNeighbours s nb r c" for r c
      by (rule mineNeighbours_cong) (rule mine1)
    from Cons.IH[OF sq1 al1 rest] obtain s' nb' where
      ih: "adjacentLoop s1 nb1 rest = Inr (s', nb')" "square nb'" "allocated s' nb'"
        "nextRef s1 \<le> nextRef s'" "\<forall>x < nextRef s1. tiles s' x = tiles s1 x"
        "\<forall>r < BOARD_SIZE. \<forall>c < BOARD_SIZE.
                 cell s' nb' r c =
                   (if (r, c) \<in> set rest \<and> \<not> isMine (cell s1 nb1 r c)
                    then (cell s1 nb1 r c)\<lparr>adjacentMines := mineNeighbours s1 nb1 r c\<rparr>
                    else cell s1 nb1 r c)"
      by blast
    have fr: "\<forall>x < nextRef s. tiles s' x = tiles s x"
      using ih(5) s1 by simp
    have "cell s' nb' r c =
                   (if (r, c) \<in> set (p # rest) \<and> \<not> isMine (cell s nb r c)
                    then (cell s nb r c)\<lparr>adjacentMines := mineNeighbours s nb r c\<rparr>
                    else cell s nb r c)"
      if "r < BOARD_SIZE" "c < BOARD_SIZE" for r c
    proof -
      from ih(6) that have e: "cell s' nb' r c =
                   (if (r, c) \<in> set rest \<and> \<not> isMine (cell s1 nb1 r c)
                    then (cell s1 nb1 r c)\<lparr>adjacentMines := mineNeighbours s1 nb1 r c\<rparr>
                    else cell s1 nb1 r c)" by simp
      have nm: "\<not> isMine (cell s nb row col)" using False by (simp add: cell_def a_def)
      show ?thesis
      proof (cases "r = row \<and> c = col")
        case True
        then have c1': "cell s1 nb1 r c = (cell s nb r c)\<lparr>adjacentMines := m\<rparr>"
          using c1[OF that] by simp
        have m': "mineNeighbours s1 nb1 r c = m" using True by (simp add: mn1 m_def)
        have "cell s' nb' r c = (cell s nb r c)\<lparr>adjacentMines := m\<rparr>"
          unfolding e m' c1' by simp
        moreover have "(r, c) \<in> set (p # rest)" "\<not> isMine (cell s nb r c)"
          "mineNeighbours s nb r c = m"
          using True nm by (simp_all add: p m_def)
        ultimately show ?thesis by simp
      next
        case False
        then have c1': "cell s1 nb1 r c = cell s nb r c"
          using c1[OF that] by auto
        have mem: "(r, c) \<in> set (p # rest) \<longleftrightarrow> (r, c) \<in> set rest"
          using False by (auto simp add: p)
        show ?thesis unfolding e mn1 c1' mem by simp
      qed
    qed
    then have cells: "\<forall>r < BOARD_SIZE. \<forall>c < BOARD_SIZE. cell s' nb' r c =
                   (if (r, c) \<in> set (p # rest) \<and> \<not> isMine (cell s nb r c)
                    then (cell s nb r c)\<lparr>adjacentMines := mineNeighbours s nb r c\<rparr>
                    else cell s nb r c)" by blast
    have le: "nextRef s \<le> nextRef s'" using ih(4) s1(1) by simp
    show ?thesis
    proof (intro exI conjI)
      show "adjacentLoop s nb (p # rest) = Inr (s', nb')" using step ih(1) by simp
    qed (fact ih(2) ih(3) le fr cells)+
  qed
qed

lemma allCells_iff: "(r, c) \<in> set allCells \<longleftrightarrow> r < BOARD_SIZE \<and> c < BOARD_SIZE"
  by (auto simp add: allCells_def image_iff)

lemma calculateAdjacentMines_spec:
  assumes "square b" "allocated s b"
  shows "\<exists>s' b'. calculateAdjacentMines s b = Inr (s', b') \<and> square b' \<and> allocated s' b'
           \<and> nextRef s \<le> nextRef s' \<and> (\<forall>x < nextRef s. tiles s' x = tiles s x)
           \<and> (\<forall>r < BOARD_SIZE. \<forall>c < BOARD_SIZE.
                 cell s' b' r c =
                   (if isMine (cell s b r c) then cell s b r c
                    else (cell s b r c)\<lparr>adjacentMines := mineNeighbours s b r c\<rparr>))"
proof -
  have "\<forall>p \<in> set allCells. fst p < BOARD_SIZE \<and> snd p < BOARD_SIZE"
    by (auto simp add: allCells_iff)
  from adjacentLoop_spec[OF assms this] obtain s' b' where
    h: "adjacentLoop s b allCells = Inr (s', b')" "square b'" "allocated s' b'"
       "nextRef s \<le> nextRef s'" "\<forall>x < nextRef s. tiles s' x = tiles s x"
       "\<forall>r < BOARD_SIZE. \<forall>c < BOARD_SIZE.
                 cell s' b' r c =
                   (if (r, c) \<in> set allCells \<and> \<not> isMine (cell s b r c)
                    then (cell s b r c)\<lparr>adjacentMines := mineNeighbours s b r c\<rparr>
                    else cell s b r c)"
    by blast
  have cells: "\<forall>r < BOARD_SIZE. \<forall>c < BOARD_SIZE.
                 cell s' b' r c =
                   (if isMine (cell s b r c) then cell s b r c
                    else (cell s b r c)\<lparr>adjacentMines := mineNeighbours s b r c\<rparr>)"
    using h(6) by (simp add: allCells_iff)
  show ?thesis
  proof (intro exI conjI)
    show "calculateAdjacentMines s b = Inr (s', b')"
      using h(1) by (simp add: calculateAdjacentMines_def)
  qed (fact h(2) h(3) h(4) h(5) cells)+
qed

section \<open>The board built by createEmptyBoard\<close>

lemma newTileRow_all:
  "nextRef (fst (newTileRow s n)) = nextRef s + n
   \<and> (\<forall>x. tiles (fst (newTileRow s n)) x
          = (if nextRef s \<le> x \<and> x < nextRef s + n then blankTile else tiles s x))
   \<and> snd (newTileRow s n) = [nextRef s ..< nextRef s + n]"
proof (induction n arbitrary: s)
  case 0
  show ?case by auto
next
  case (Suc n)
  let ?s1 = "fst (newTile s blankTile)"
  from Suc.IH[of ?s1] show ?case
    by (auto simp add: case_prod_beta Let_def newTile_simps upt_rec[of "nextRef s"])
qed

lemmas newTileRow_spec = newTileRow_all[THEN conjunct1]
  newTileRow_all[THEN conjunct2, THEN conjunct1, rule_format]
  newTileRow_all[THEN conjunct2, THEN conjunct2]

lemma upt_Suc_shift: "[0..<Suc m] = 0 # map Suc [0..<m]"
  by (simp add: upt_conv_Cons map_Suc_upt del: upt_Suc)

lemma newTileRows_all:
  "nextRef (fst (newTileRows s m)) = nextRef s + m * BOARD_SIZE
   \<and> (\<forall>x. tiles (fst (newTileRows s m)) x
          = (if nextRef s \<le> x \<and> x < nextRef s + m * BOARD_SIZE then blankTile else tiles s x))
   \<and> snd (newTileRows s m)
       = map (\<lambda>r. [nextRef s + r * BOARD_SIZE ..< nextRef s + r * BOARD_SIZE + BOARD_SIZE]) [0..<m]"
proof (induction m arbitrary: s)
  case 0
  show ?case by auto
next
  case (Suc m)
  let ?s1 = "fst (newTileRow s BOARD_SIZE)"
  have n1: "nextRef ?s1 = nextRef s + BOARD_SIZE" by (rule newTileRow_spec(1))
  have unf: "newTileRows s (Suc m)
      = (fst (newTileRows ?s1 m), snd (newTileRow s BOARD_SIZE) # snd (newTileRows ?s1 m))"
    by (simp add: case_prod_beta Let_def)
  note ih = Suc.IH[of ?s1, unfolded n1]
  have a: "nextRef (fst (newTileRows s (Suc m))) = nextRef s + Suc m * BOARD_SIZE"
    unfolding unf using ih by simp
  have b: "tiles (fst (newTileRows s (Suc m))) x
          = (if nextRef s \<le> x \<and> x < nextRef s + Suc m * BOARD_SIZE then blankTile else tiles s x)"
    for x
    unfolding unf using ih by (auto simp add: newTileRow_spec(2))
  have c: "snd (newTileRows s (Suc m))
       = map (\<lambda>r. [nextRef s + r * BOARD_SIZE ..< nextRef s + r * BOARD_SIZE + BOARD_SIZE])
           [0..<Suc m]"
    unfolding unf upt_Suc_shift using ih
    by (simp add: newTileRow_spec(3) comp_def ac_simps)
  from a b c show ?case by blast
qed

lemmas newTileRows_spec = newTileRows_all[THEN conjunct1]
  newTileRows_all[THEN conjunct2, THEN conjunct1, rule_format]
  newTileRows_all[THEN conjunct2, THEN conjunct2]

lemma newTileRows_concat:
  "concat (snd (newTileRows s m)) = [nextRef s ..< nextRef s + m * BOARD_SIZE]"
proof (induction m arbitrary: s)
  case 0
  show ?case by simp
next
  case (Suc m)
  let ?s1 = "fst (newTileRow s BOARD_SIZE)"
  have n1: "nextRef ?s1 = nextRef s + BOARD_SIZE" by (rule newTileRow_spec(1))
  have unf: "newTileRows s (Suc m)
      = (fst (newTileRows ?s1 m), snd (newTileRow s BOARD_SIZE) # snd (newTileRows ?s1 m))"
    by (simp add: case_prod_beta Let_def)
  have "concat (snd (newTileRows s (Suc m)))
        = [nextRef s ..< nextRef s + BOARD_SIZE]
          @ [nextRef s + BOARD_SIZE ..< nextRef s + BOARD_SIZE + m * BOARD_SIZE]"
    unfolding unf using Suc.IH[of ?s1] by (simp add: newTileRow_spec(3) n1)
  also have "\<dots> = [nextRef s ..< nextRef s + Suc m * BOARD_SIZE]"
    using upt_add_eq_append[of "nextRef s" "nextRef s + BOARD_SIZE" "m * BOARD_SIZE"]
    by (simp add: ac_simps)
  finally show ?case .
qed

text \<open>The fresh board of createEmptyBoard.\<close>

lemma fresh_board:
  assumes "newTileRows s BOARD_SIZE = (s1, nb)"
  shows "square nb" "allocated s1 nb" "distinct (concat nb)"
    "nextRef s \<le> nextRef s1" "\<forall>x < nextRef s. tiles s1 x = tiles s x"
    "\<forall>a \<in> set (concat nb). nextRef s \<le> a \<and> tiles s1 a = blankTile"
proof -
  have s1: "s1 = fst (newTileRows s BOARD_SIZE)" and nb: "nb = snd (newTileRows s BOARD_SIZE)"
    using assms by simp_all
  have cc: "concat nb = [nextRef s ..< nextRef s + BOARD_SIZE * BOARD_SIZE]"
    unfolding nb by (rule newTileRows_concat)
  show "square nb"
    unfolding nb newTileRows_spec(3) by (simp add: square_def list_all_iff)
  show "allocated s1 nb"
    unfolding allocated_def cc list_all_iff s1 by (simp add: newTileRows_spec(1))
  show "distinct (concat nb)" unfolding cc by simp
  show "nextRef s \<le> nextRef s1" unfolding s1 by (simp add: newTileRows_spec(1))
  show "\<forall>x < nextRef s. tiles s1 x = tiles s x" unfolding s1 by (simp add: newTileRows_spec(2))
  show "\<forall>a \<in> set (concat nb). nextRef s \<le> a \<and> tiles s1 a = blankTile"
    unfolding cc s1 by (simp add: newTileRows_spec(2))
qed

lemma fresh_gridBoard: "newTileRows emptyStore BOARD_SIZE = (blankStore, gridBoard)"
proof (rule prod_eqI)
  show "fst (newTileRows emptyStore BOARD_SIZE) = fst (blankStore, gridBoard)"
    by (rule Store.equality)
      (auto simp add: newTileRows_spec emptyStore_def blankStore_def BOARD_SIZE_def)
  show "snd (newTileRows emptyStore BOARD_SIZE) = snd (blankStore, gridBoard)"
    unfolding newTileRows_spec(3)
    by (simp add: emptyStore_def BOARD_SIZE_def gridBoard_def upt_rec)
qed

lemma seedMines_spec:
  assumes "seedMines ds s nb k = Inr (ds', s')"
  shows "nextRef s' = nextRef s
    \<and> (\<forall>x. tiles s' x = tiles s x
            \<or> (x \<in> set (concat nb) \<and> tiles s' x = (tiles s x)\<lparr>isMine := True\<rparr>))
    \<and> (k \<le> NUM_MINES \<longrightarrow> card {a \<in> set (concat nb). isMine (tiles s a)} = k \<longrightarrow>
          card {a \<in> set (concat nb). isMine (tiles s' a)} = NUM_MINES)"
  using assms
proof (induction ds arbitrary: s k)
  case Nil
  then have "\<not> k < NUM_MINES" "s' = s"
    by (auto simp add: seedMines.simps[of "[]"] split: if_splits)
  then show ?case by auto
next
  case (Cons p ds)
  obtain row col where p: "p = (row, col)" by (cases p)
  note prem = Cons.prems[unfolded p]
  note unf = seedMines.simps[of "(row, col) # ds" s nb k]
  show ?case
  proof (cases "k < NUM_MINES")
    case False
    with prem have "s' = s" by (simp add: unf)
    with False show ?thesis by auto
  next
    case True
    with prem obtain a where t: "tileAt nb (int row) (int col) = Some a"
      by (auto simp add: unf split: option.splits)
    have mem: "a \<in> set (concat nb)" using t by (rule tileAt_mem)
    show ?thesis
    proof (cases "isMine (tiles s a)")
      case mine: True
      with prem True t have "seedMines ds s nb k = Inr (ds', s')"
        by (simp add: unf)
      from Cons.IH[OF this] show ?thesis .
    next
      case nomine: False
      let ?s1 = "writeTile s a ((tiles s a)\<lparr>isMine := True\<rparr>)"
      from prem True t nomine have r: "seedMines ds ?s1 nb (k + 1) = Inr (ds', s')"
        by (simp add: unf)
      note ih = Cons.IH[OF r]
      have n: "nextRef s' = nextRef s" using ih by simp
      have fr: "tiles s' x = tiles s x
            \<or> (x \<in> set (concat nb) \<and> tiles s' x = (tiles s x)\<lparr>isMine := True\<rparr>)" for x
      proof -
        from ih have d: "tiles s' x = tiles ?s1 x
            \<or> (x \<in> set (concat nb) \<and> tiles s' x = (tiles ?s1 x)\<lparr>isMine := True\<rparr>)"
          by blast
        show ?thesis
        proof (cases "x = a")
          case True
          have "tiles ?s1 a = (tiles s a)\<lparr>isMine := True\<rparr>" by simp
          with d True have "tiles s' a = (tiles s a)\<lparr>isMine := True\<rparr>" by auto
          with True mem show ?thesis by simp
        next
          case False
          then have "tiles ?s1 x = tiles s x" by simp
          with d show ?thesis by simp
        qed
      qed
      have cnt: "card {a \<in> set (concat nb). isMine (tiles s' a)} = NUM_MINES"
        if le: "k \<le> NUM_MINES" and c: "card {a \<in> set (concat nb). isMine (tiles s a)} = k"
      proof -
        have "{x \<in> set (concat nb). isMine (tiles ?s1 x)}
              = insert a {x \<in> set (concat nb). isMine (tiles s x)}"
          using mem by auto
        moreover have "a \<notin> {x \<in> set (concat nb). isMine (tiles s x)}" using nomine by simp
        ultimately have "card {x \<in> set (concat nb). isMine (tiles ?s1 x)} = k + 1"
          using c by simp
        moreover have "k + 1 \<le> NUM_MINES" using True by simp
        ultimately show ?thesis using ih by blast
      qed
      from n fr cnt show ?thesis by blast
    qed
  qed
qed

lemma square_mineCells:
  assumes "square b"
  shows "mineCells s b = {(r, c). r < BOARD_SIZE \<and> c < BOARD_SIZE \<and> isMine (cell s b r c)}"
proof -
  have "r < length b \<and> c < length (b ! r) \<longleftrightarrow> r < BOARD_SIZE \<and> c < BOARD_SIZE" for r c
    using assms by (auto simp add: square_def list_all_length)
  then show ?thesis unfolding mineCells_def by blast
qed

lemma square_concat_cell:
  assumes "square b" "a \<in> set (concat b)"
  shows "\<exists>r < BOARD_SIZE. \<exists>c < BOARD_SIZE. a = b ! r ! c"
proof -
  from assms(2) obtain row where row: "row \<in> set b" "a \<in> set row" by auto
  then obtain r where r: "r < length b" "row = b ! r" by (auto simp add: in_set_conv_nth)
  from row(2) obtain c where c: "c < length row" "a = row ! c" by (auto simp add: in_set_conv_nth)
  from assms(1) r c show ?thesis by (auto simp add: square_def list_all_length)
qed

lemma square_cell_mem:
  assumes "square b" "r < BOARD_SIZE" "c < BOARD_SIZE"
  shows "b ! r ! c \<in> set (concat b)"
proof -
  from assms have "r < length b" "c < length (b ! r)" by (simp_all add: square_nth)
  then show ?thesis by (auto intro!: bexI[of _ "b ! r"])
qed

lemma createEmptyBoard_spec:
  assumes "createEmptyBoard ds s = Inr (ds', s', b)"
  shows "square b" "allocated s' b" "nextRef s \<le> nextRef s'"
    "\<forall>x < nextRef s. tiles s' x = tiles s x"
    "\<forall>r < BOARD_SIZE. \<forall>c < BOARD_SIZE.
        \<not> isRevealed (cell s' b r c) \<and> \<not> isFlagged (cell s' b r c)"
    "card (mineCells s' b) = NUM_MINES"
    "\<forall>r < BOARD_SIZE. \<forall>c < BOARD_SIZE.
        adjacentMines (cell s' b r c)
          = (if isMine (cell s' b r c) then 0 else mineNeighbours s' b r c)"
proof -
  obtain s1 nb where f: "newTileRows s BOARD_SIZE = (s1, nb)" by fastforce
  from assms f obtain s2 where
    sm: "seedMines ds s1 nb 0 = Inr (ds', s2)" and
    ca: "calculateAdjacentMines s2 nb = Inr (s', b)"
    by (auto simp add: createEmptyBoard_def split: sum.splits)
  note fb = fresh_board[OF f]
  note ss = seedMines_spec[OF sm]
  have n2: "nextRef s2 = nextRef s1" using ss by simp
  have t2: "tiles s2 x = tiles s1 x
            \<or> (x \<in> set (concat nb) \<and> tiles s2 x = (tiles s1 x)\<lparr>isMine := True\<rparr>)" for x
    using ss by blast
  have al2: "allocated s2 nb" using fb(2) n2 by (simp add: allocated_def)
  from calculateAdjacentMines_spec[OF fb(1) al2] ca have
    c: "square b" "allocated s' b" "nextRef s2 \<le> nextRef s'"
       "\<forall>x < nextRef s2. tiles s' x = tiles s2 x"
       "\<forall>r < BOARD_SIZE. \<forall>c < BOARD_SIZE.
                 cell s' b r c =
                   (if isMine (cell s2 nb r c) then cell s2 nb r c
                    else (cell s2 nb r c)\<lparr>adjacentMines := mineNeighbours s2 nb r c\<rparr>)"
    by auto
  show "square b" by (rule c(1))
  show "allocated s' b" by (rule c(2))
  show "nextRef s \<le> nextRef s'" using fb(4) n2 c(3) by simp
  show "\<forall>x < nextRef s. tiles s' x = tiles s x"
  proof (intro allI impI)
    fix x assume x: "x < nextRef s"
    have "x \<notin> set (concat nb)"
    proof
      assume "x \<in> set (concat nb)"
      with fb(6) have "nextRef s \<le> x" by blast
      with x show False by simp
    qed
    with t2[of x] have "tiles s2 x = tiles s1 x" by simp
    moreover have "tiles s' x = tiles s2 x" using c(4) x fb(4) n2 by simp
    moreover have "tiles s1 x = tiles s x" using fb(5) x by simp
    ultimately show "tiles s' x = tiles s x" by simp
  qed
  have blank2: "tiles s2 a = blankTile \<or> tiles s2 a = blankTile\<lparr>isMine := True\<rparr>"
    if "a \<in> set (concat nb)" for a
    using t2[of a] fb(6) that by auto
  show "\<forall>r < BOARD_SIZE. \<forall>c < BOARD_SIZE.
        \<not> isRevealed (cell s' b r c) \<and> \<not> isFlagged (cell s' b r c)"
  proof (intro allI impI)
    fix r c assume rc: "r < BOARD_SIZE" "c < BOARD_SIZE"
    have "nb ! r ! c \<in> set (concat nb)" by (rule square_cell_mem[OF fb(1) rc])
    from blank2[OF this] have "\<not> isRevealed (cell s2 nb r c) \<and> \<not> isFlagged (cell s2 nb r c)"
      by (auto simp add: cell_def blankTile_def)
    moreover from c(5) rc have "cell s' b r c =
                   (if isMine (cell s2 nb r c) then cell s2 nb r c
                    else (cell s2 nb r c)\<lparr>adjacentMines := mineNeighbours s2 nb r c\<rparr>)"
      by simp
    ultimately show "\<not> isRevealed (cell s' b r c) \<and> \<not> isFlagged (cell s' b r c)" by simp
  qed
  have im: "isMine (cell s' b r c) = isMine (cell s2 nb r c)"
    if "r < BOARD_SIZE" "c < BOARD_SIZE" for r c
    using c(5) that by simp
  have "mineCells s' b = mineCells s2 nb"
    unfolding square_mineCells[OF c(1)] square_mineCells[OF fb(1)]
    using im by blast
  also have "card (mineCells s2 nb)
      = length (filter (\<lambda>a. isMine (tiles s2 a)) (concat nb))"
    using card_cells_filter[of nb "\<lambda>a. isMine (tiles s2 a)"]
    by (simp add: mineCells_def cell_def)
  also have "\<dots> = card ({a. isMine (tiles s2 a)} \<inter> set (concat nb))"
    by (rule distinct_length_filter[OF fb(3)])
  also have "{a. isMine (tiles s2 a)} \<inter> set (concat nb)
      = {a \<in> set (concat nb). isMine (tiles s2 a)}" by auto
  also have "card {a \<in> set (concat nb). isMine (tiles s2 a)} = NUM_MINES"
  proof -
    have "{a \<in> set (concat nb). isMine (tiles s1 a)} = {}"
      using fb(6) by (auto simp add: blankTile_def)
    then have "card {a \<in> set (concat nb). isMine (tiles s1 a)} = 0" by simp
    with ss show ?thesis by simp
  qed
  finally show "card (mineCells s' b) = NUM_MINES" .
  have mn: "mineNeighbours s' b r c = mineNeighbours s2 nb r c" for r c
    by (rule mineNeighbours_cong) (rule im)
  show "\<forall>r < BOARD_SIZE. \<forall>c < BOARD_SIZE.
        adjacentMines (cell s' b r c)
          = (if isMine (cell s' b r c) then 0 else mineNeighbours s' b r c)"
  proof (intro allI impI)
    fix r c assume rc: "r < BOARD_SIZE" "c < BOARD_SIZE"
    have "nb ! r ! c \<in> set (concat nb)" by (rule square_cell_mem[OF fb(1) rc])
    from blank2[OF this] have z: "adjacentMines (cell s2 nb r c) = 0"
      by (auto simp add: cell_def blankTile_def)
    from c(5) rc have e: "cell s' b r c =
                   (if isMine (cell s2 nb r c) then cell s2 nb r c
                    else (cell s2 nb r c)\<lparr>adjacentMines := mineNeighbours s2 nb r c\<rparr>)"
      by simp
    show "adjacentMines (cell s' b r c)
          = (if isMine (cell s' b r c) then 0 else mineNeighbours s' b r c)"
      unfolding mn im[OF rc] unfolding e using z by simp
  qed
qed

subsection \<open>Distinct tile objects, and enough draws\<close>

lemma fresh_board_nth:
  assumes "newTileRows s BOARD_SIZE = (s1, nb)" "r < BOARD_SIZE" "c < BOARD_SIZE"
  shows "nb ! r ! c = nextRef s + r * BOARD_SIZE + c"
proof -
  have "nb = map (\<lambda>r. [nextRef s + r * BOARD_SIZE ..< nextRef s + r * BOARD_SIZE + BOARD_SIZE])
               [0..<BOARD_SIZE]"
    using assms(1) newTileRows_spec(3)[of s BOARD_SIZE] by simp
  then show ?thesis using assms(2,3) by simp
qed

lemma fresh_distinctCells:
  assumes "newTileRows s BOARD_SIZE = (s1, nb)"
  shows "distinctCells nb"
  unfolding distinctCells_def
proof (intro allI impI)
  fix r c r' c'
  assume h: "r < BOARD_SIZE" "c < BOARD_SIZE" "r' < BOARD_SIZE" "c' < BOARD_SIZE"
    and e: "nb ! r ! c = nb ! r' ! c'"
  have "nextRef s + r * BOARD_SIZE + c = nextRef s + r' * BOARD_SIZE + c'"
    using e unfolding fresh_board_nth[OF assms h(1,2)] fresh_board_nth[OF assms h(3,4)] .
  then have e': "r * 10 + c = r' * 10 + c'" by (simp add: BOARD_SIZE_def)
  have c10: "c < 10" "c' < 10" using h by (simp_all add: BOARD_SIZE_def)
  have "(r * 10 + c) div 10 = r" "(r' * 10 + c') div 10 = r'" using c10 by simp_all
  with e' have rr: "r = r'" by simp
  with e' have "c = c'" by simp
  with rr show "r = r' \<and> c = c'" by simp
qed

lemma distinctCells_setTile:
  assumes "square b" "allocated s b" "distinctCells b" "row < BOARD_SIZE" "col < BOARD_SIZE"
  shows "distinctCells (setTile b row col (nextRef s))"
  unfolding distinctCells_def
proof (intro allI impI)
  fix r c r' c'
  assume h: "r < BOARD_SIZE" "c < BOARD_SIZE" "r' < BOARD_SIZE" "c' < BOARD_SIZE"
    and e: "setTile b row col (nextRef s) ! r ! c = setTile b row col (nextRef s) ! r' ! c'"
  have n1: "setTile b row col (nextRef s) ! r ! c
      = (if r = row \<and> c = col then nextRef s else b ! r ! c)"
    by (rule setTile_nth[OF assms(1,4,5) h(1,2)])
  have n2: "setTile b row col (nextRef s) ! r' ! c'
      = (if r' = row \<and> c' = col then nextRef s else b ! r' ! c')"
    by (rule setTile_nth[OF assms(1,4,5) h(3,4)])
  have l1: "b ! r ! c < nextRef s" by (rule allocated_nth[OF assms(2,1) h(1,2)])
  have l2: "b ! r' ! c' < nextRef s" by (rule allocated_nth[OF assms(2,1) h(3,4)])
  show "r = r' \<and> c = c'"
  proof (cases "r = row \<and> c = col")
    case t1: True
    show ?thesis
    proof (cases "r' = row \<and> c' = col")
      case True
      with t1 show ?thesis by simp
    next
      case False
      have "setTile b row col (nextRef s) ! r ! c = nextRef s"
        unfolding n1 using t1 by simp
      moreover have "setTile b row col (nextRef s) ! r' ! c' = b ! r' ! c'"
        unfolding n2 by (simp only: False if_False)
      ultimately have "b ! r' ! c' = nextRef s" using e by simp
      with l2 show ?thesis by simp
    qed
  next
    case f1: False
    have m1: "setTile b row col (nextRef s) ! r ! c = b ! r ! c"
      unfolding n1 by (simp only: f1 if_False)
    show ?thesis
    proof (cases "r' = row \<and> c' = col")
      case True
      have "setTile b row col (nextRef s) ! r' ! c' = nextRef s"
        unfolding n2 using True by simp
      with m1 e have "b ! r ! c = nextRef s" by simp
      with l1 show ?thesis by simp
    next
      case False
      have "setTile b row col (nextRef s) ! r' ! c' = b ! r' ! c'"
        unfolding n2 by (simp only: False if_False)
      with m1 e have "b ! r ! c = b ! r' ! c'" by simp
      with assms(3) h show ?thesis unfolding distinctCells_def by blast
    qed
  qed
qed

lemma adjacentLoop_distinct:
  assumes "adjacentLoop s nb cells = Inr (s', nb')" "square nb" "allocated s nb"
    "distinctCells nb" "\<forall>p \<in> set cells. fst p < BOARD_SIZE \<and> snd p < BOARD_SIZE"
  shows "distinctCells nb'"
  using assms
proof (induction cells arbitrary: s nb)
  case Nil
  then show ?case by simp
next
  case (Cons p cells)
  obtain row col where p: "p = (row, col)" by (cases p)
  note prem = Cons.prems(1)[unfolded p]
  from Cons.prems(5) have rc: "row < BOARD_SIZE" "col < BOARD_SIZE"
    and rest: "\<forall>p \<in> set cells. fst p < BOARD_SIZE \<and> snd p < BOARD_SIZE"
    by (simp_all add: p)
  from prem obtain a where t: "tileAt nb (int row) (int col) = Some a"
    by (auto split: option.splits)
  show ?case
  proof (cases "isMine (tiles s a)")
    case True
    with prem t have "adjacentLoop s nb cells = Inr (s', nb')" by simp
    from Cons.IH[OF this Cons.prems(2,3,4) rest] show ?thesis .
  next
    case False
    with prem t obtain m where m: "countMines s nb (int row) (int col) offsets 0 = Inr m"
      by (auto split: sum.splits)
    let ?s1 = "fst (newTile s ((tiles s a)\<lparr>adjacentMines := m\<rparr>))"
    let ?nb1 = "setTile nb row col (nextRef s)"
    from prem t False m
    have step: "adjacentLoop ?s1 ?nb1 cells = Inr (s', nb')"
      by (simp add: newTile_def)
    have sq: "square ?nb1" using Cons.prems(2) by (rule square_setTile)
    have al: "allocated ?s1 ?nb1"
      by (rule allocated_setTile[OF Cons.prems(3)]) (simp_all add: newTile_simps)
    have di: "distinctCells ?nb1"
      by (rule distinctCells_setTile[OF Cons.prems(2,3,4) rc])
    from Cons.IH[OF step sq al di rest] show ?thesis .
  qed
qed

lemma calculateAdjacentMines_distinct:
  assumes "calculateAdjacentMines s b = Inr (s', b')" "square b" "allocated s b" "distinctCells b"
  shows "distinctCells b'"
proof -
  have "\<forall>p \<in> set allCells. fst p < BOARD_SIZE \<and> snd p < BOARD_SIZE"
    by (auto simp add: allCells_iff)
  with adjacentLoop_distinct[of s b allCells s' b'] assms show ?thesis
    by (simp add: calculateAdjacentMines_def)
qed

lemma seedMines_returns:
  assumes "square nb" "distinctCells nb"
    and "list_all (\<lambda>(r, c). r < BOARD_SIZE \<and> c < BOARD_SIZE) ds"
    and "NUM_MINES \<le> k + card {p \<in> set ds. \<not> isMine (cell s nb (fst p) (snd p))}"
  shows "\<exists>ds' s'. seedMines ds s nb k = Inr (ds', s')"
  using assms(3,4)
proof (induction ds arbitrary: s k)
  case Nil
  then have "\<not> k < NUM_MINES" by simp
  then show ?case by (simp add: seedMines.simps[of "[]"])
next
  case (Cons p ds)
  obtain row col where p: "p = (row, col)" by (cases p)
  note unf = seedMines.simps[of "(row, col) # ds" s nb k]
  from Cons.prems(1) have rc: "row < BOARD_SIZE" "col < BOARD_SIZE"
    and rest: "list_all (\<lambda>(r, c). r < BOARD_SIZE \<and> c < BOARD_SIZE) ds"
    by (simp_all add: p)
  let ?F = "\<lambda>s ds. {p \<in> set ds. \<not> isMine (cell s nb (fst p) (snd p))}"
  show ?case
  proof (cases "k < NUM_MINES")
    case False
    then show ?thesis unfolding p by (simp add: unf)
  next
    case True
    define a where "a = nb ! row ! col"
    have t: "tileAt nb (int row) (int col) = Some a"
      using square_tileAt[of nb "int row" "int col"] assms(1) rc by (simp add: a_def)
    show ?thesis
    proof (cases "isMine (tiles s a)")
      case mine: True
      then have "?F s (p # ds) = ?F s ds" by (auto simp add: p cell_def a_def)
      with Cons.prems(2) have "NUM_MINES \<le> k + card (?F s ds)" by simp
      note ih = Cons.IH[OF rest this]
      have "seedMines ((row, col) # ds) s nb k = seedMines ds s nb k"
        using mine True t by (simp add: unf)
      with ih show ?thesis unfolding p by (simp only:)
    next
      case nomine: False
      let ?s1 = "writeTile s a ((tiles s a)\<lparr>isMine := True\<rparr>)"
      have other: "isMine (cell ?s1 nb r c) = isMine (cell s nb r c)"
        if "r < BOARD_SIZE" "c < BOARD_SIZE" "(r, c) \<noteq> (row, col)" for r c
      proof -
        have "nb ! r ! c \<noteq> a"
          using assms(2) that rc unfolding distinctCells_def a_def by blast
        then show ?thesis by (simp add: cell_def)
      qed
      have inr: "fst q < BOARD_SIZE \<and> snd q < BOARD_SIZE" if "q \<in> set ds" for q
        using rest that by (auto simp add: list_all_iff)
      have sub: "?F s (p # ds) - {p} \<subseteq> ?F ?s1 ds"
      proof
        fix q assume q: "q \<in> ?F s (p # ds) - {p}"
        then have qd: "q \<in> set ds" "q \<noteq> p" "\<not> isMine (cell s nb (fst q) (snd q))" by auto
        from inr[OF qd(1)] qd(2) other[of "fst q" "snd q"] qd(3)
        have "\<not> isMine (cell ?s1 nb (fst q) (snd q))" by (auto simp add: p)
        with qd(1) show "q \<in> ?F ?s1 ds" by simp
      qed
      have fin: "finite (?F ?s1 ds)" by simp
      have fin0: "finite (?F s (p # ds))" by simp
      have "card (?F s (p # ds)) \<le> card (?F s (p # ds) - {p}) + 1"
      proof (cases "p \<in> ?F s (p # ds)")
        case True
        from card_Suc_Diff1[OF fin0 True] show ?thesis by simp
      next
        case False
        then have "?F s (p # ds) - {p} = ?F s (p # ds)" by blast
        then show ?thesis by simp
      qed
      also have "card (?F s (p # ds) - {p}) \<le> card (?F ?s1 ds)"
        by (rule card_mono[OF fin sub])
      finally have "NUM_MINES \<le> (k + 1) + card (?F ?s1 ds)"
        using Cons.prems(2) by simp
      note ih = Cons.IH[OF rest this]
      have "seedMines ((row, col) # ds) s nb k = seedMines ds ?s1 nb (k + 1)"
        using nomine True t by (simp add: unf)
      with ih show ?thesis unfolding p by (simp only:)
    qed
  qed
qed

lemma createEmptyBoard_returns:
  assumes "list_all (\<lambda>(r, c). r < BOARD_SIZE \<and> c < BOARD_SIZE) ds"
    and "NUM_MINES \<le> card (set ds)"
  shows "\<exists>ds' s' b. createEmptyBoard ds s = Inr (ds', s', b)"
proof -
  obtain s1 nb where f: "newTileRows s BOARD_SIZE = (s1, nb)" by fastforce
  note fb = fresh_board[OF f]
  have "{p \<in> set ds. \<not> isMine (cell s1 nb (fst p) (snd p))} = set ds"
  proof -
    have "\<not> isMine (cell s1 nb (fst p) (snd p))" if "p \<in> set ds" for p
    proof -
      from assms(1) that have "fst p < BOARD_SIZE" "snd p < BOARD_SIZE"
        by (auto simp add: list_all_iff)
      from square_cell_mem[OF fb(1) this] fb(6) show ?thesis
        by (auto simp add: cell_def blankTile_def)
    qed
    then show ?thesis by blast
  qed
  with assms(2) have "NUM_MINES \<le> 0 + card {p \<in> set ds. \<not> isMine (cell s1 nb (fst p) (snd p))}"
    by simp
  from seedMines_returns[OF fb(1) fresh_distinctCells[OF f] assms(1) this]
  obtain ds' s2 where sm: "seedMines ds s1 nb 0 = Inr (ds', s2)" by blast
  have "nextRef s2 = nextRef s1" using seedMines_spec[OF sm] by simp
  with fb(2) have al: "allocated s2 nb" by (simp add: allocated_def)
  from calculateAdjacentMines_spec[OF fb(1) al] obtain s3 b where
    "calculateAdjacentMines s2 nb = Inr (s3, b)" by blast
  with f sm show ?thesis by (simp add: createEmptyBoard_def)
qed

lemma createEmptyBoard_distinct:
  assumes "createEmptyBoard ds s = Inr (ds', s', b)"
  shows "distinctCells b"
proof -
  obtain s1 nb where f: "newTileRows s BOARD_SIZE = (s1, nb)" by fastforce
  from assms f obtain s2 where
    sm: "seedMines ds s1 nb 0 = Inr (ds', s2)" and
    ca: "calculateAdjacentMines s2 nb = Inr (s', b)"
    by (auto simp add: createEmptyBoard_def split: sum.splits)
  note fb = fresh_board[OF f]
  have "nextRef s2 = nextRef s1" using seedMines_spec[OF sm] by simp
  with fb(2) have al: "allocated s2 nb" by (simp add: allocated_def)
  show ?thesis
    by (rule calculateAdjacentMines_distinct[OF ca fb(1) al fresh_distinctCells[OF f]])
qed

lemma distinctCells_gridBoard: "distinctCells gridBoard"
  by (rule fresh_distinctCells[OF fresh_gridBoard])
section \<open>A game from concrete draws\<close>

lemma sample_seed:
  "\<exists>s2. seedMines sampleDraws blankStore gridBoard 0 = Inr ([], s2) \<and> isMine (tiles s2 0)"
  by (simp add: seedMines.simps sampleDraws_def tileAt_def gridBoard_def blankStore_def
        blankTile_def NUM_MINES_def)

lemma sample_create:
  "\<exists>s3 b3. createEmptyBoard sampleDraws emptyStore = Inr ([], s3, b3) \<and> isMine (cell s3 b3 0 0)"
proof -
  from sample_seed obtain s2 where
    sm: "seedMines sampleDraws blankStore gridBoard 0 = Inr ([], s2)" and m: "isMine (tiles s2 0)"
    by blast
  have "nextRef s2 = nextRef blankStore" using seedMines_spec[OF sm] by simp
  then have al: "allocated s2 gridBoard"
    by (intro allocated_gridBoard) (simp add: blankStore_def)
  from calculateAdjacentMines_spec[OF square_gridBoard al] obtain s3 b3 where
    c: "calculateAdjacentMines s2 gridBoard = Inr (s3, b3)"
       "\<forall>r < BOARD_SIZE. \<forall>c < BOARD_SIZE.
                 cell s3 b3 r c =
                   (if isMine (cell s2 gridBoard r c) then cell s2 gridBoard r c
                    else (cell s2 gridBoard r c)\<lparr>adjacentMines := mineNeighbours s2 gridBoard r c\<rparr>)"
    by blast
  have "cell s2 gridBoard 0 0 = tiles s2 0" by (simp add: cell_def gridBoard_def)
  moreover have "(0::nat) < BOARD_SIZE" by (simp add: BOARD_SIZE_def)
  ultimately have "isMine (cell s3 b3 0 0)" using c(2) m by simp
  moreover have "createEmptyBoard sampleDraws emptyStore = Inr ([], s3, b3)"
    by (simp add: createEmptyBoard_def fresh_gridBoard sm c(1))
  ultimately show ?thesis by blast
qed

lemma fresh_create:
  "createEmptyBoard sampleDraws emptyStore = Inr ([], freshStore, board freshGame)"
  and fresh_reset: "handleReset sampleDraws emptyStore = Inr ([], freshStore, freshGame)"
  and fresh_status: "\<not> isGameOver freshGame" "\<not> isGameWon freshGame" "flagsLeft freshGame = 10"
  and fresh_mine: "isMine (cell freshStore (board freshGame) 0 0)"
proof -
  from sample_create obtain s3 b3 where
    c: "createEmptyBoard sampleDraws emptyStore = Inr ([], s3, b3)" and m: "isMine (cell s3 b3 0 0)"
    by blast
  have r: "freshResult = Inr ([], s3,
      \<lparr>board = b3, isGameOver = False, isGameWon = False, flagsLeft = INITIAL_FLAGS\<rparr>)"
    by (simp add: freshResult_def handleReset_def c)
  have s: "freshStore = s3"
    and g: "freshGame = \<lparr>board = b3, isGameOver = False, isGameWon = False, flagsLeft = INITIAL_FLAGS\<rparr>"
    by (simp_all add: freshStore_def freshGame_def r)
  show "createEmptyBoard sampleDraws emptyStore = Inr ([], freshStore, board freshGame)"
    by (simp add: s g c)
  show "handleReset sampleDraws emptyStore = Inr ([], freshStore, freshGame)"
    using r by (simp add: s g freshResult_def)
  show "\<not> isGameOver freshGame" "\<not> isGameWon freshGame" "flagsLeft freshGame = 10"
    by (simp_all add: g INITIAL_FLAGS_def)
  show "isMine (cell freshStore (board freshGame) 0 0)" by (simp add: s g m)
qed

lemmas fresh_board_facts = createEmptyBoard_spec[OF fresh_create]

section \<open>The controller on reachable states\<close>

lemma click_flagged_mine:
  assumes "\<not> isGameOver st" and "\<not> isGameWon st"
    and "tileAt (board st) row col = Some a"
    and "isMine (tiles s a)" and "isFlagged (tiles s a)"
  shows "handleTileClick ds s st row col =
           Inr (ds, fst (revealBoard s (board st)),
                st\<lparr>isGameOver := True, board := snd (revealBoard s (board st))\<rparr>)"
proof -
  have "a \<in> set (concat (board st))" using assms(3) by (rule tileAt_mem)
  with assms(4) have nofirst:
    "\<not> list_all (\<lambda>a. \<not> isMine (tiles s a) \<and> \<not> isRevealed (tiles s a)) (concat (board st))"
    by (auto simp add: list_all_iff)
  have rt: "revealTile s (board st) row col = Inr (s, board st)"
    using assms(3,5) by (simp add: revealTile.simps)
  show ?thesis
    unfolding handleTileClick_def
    using assms nofirst rt by (simp add: case_prod_beta)
qed

lemma placeMinesLoop_frame:
  assumes "placeMinesLoop ds s nb k n r c = Inr (ds', s', nb')"
  shows "nextRef s \<le> nextRef s' \<and> (\<forall>x < nextRef s. tiles s' x = tiles s x)"
  using assms
proof (induction ds arbitrary: s nb k)
  case Nil
  then have "s' = s"
    by (auto simp add: placeMinesLoop.simps[of "[]"] split: if_splits)
  then show ?case by simp
next
  case (Cons p ds)
  obtain row col where p: "p = (row, col)" by (cases p)
  note prem = Cons.prems[unfolded p]
  note unf = placeMinesLoop.simps[of "(row, col) # ds" s nb k n r c]
  show ?case
  proof (cases "k < n")
    case False
    with prem have "s' = s" by (simp add: unf)
    then show ?thesis by simp
  next
    case True
    with prem obtain a where t: "tileAt nb (int row) (int col) = Some a"
      by (auto simp add: unf split: option.splits)
    show ?thesis
    proof (cases "\<not> isMine (tiles s a) \<and> \<not> (int row = r \<and> int col = c)")
      case False
      with prem True t have "placeMinesLoop ds s nb k n r c = Inr (ds', s', nb')"
        by (auto simp add: unf)
      from Cons.IH[OF this] show ?thesis .
    next
      case place: True
      let ?s1 = "fst (newTile s ((tiles s a)\<lparr>isMine := True\<rparr>))"
      from prem True t place
      have "placeMinesLoop ds ?s1 (setTile nb row col (nextRef s)) (k + 1) n r c = Inr (ds', s', nb')"
        by (simp add: unf newTile_def)
      from Cons.IH[OF this] show ?thesis by (simp add: newTile_simps)
    qed
  qed
qed

lemma adjacentLoop_frame:
  assumes "adjacentLoop s nb cells = Inr (s', nb')"
  shows "nextRef s \<le> nextRef s' \<and> (\<forall>x < nextRef s. tiles s' x = tiles s x)"
  using assms
proof (induction cells arbitrary: s nb)
  case Nil
  then show ?case by simp
next
  case (Cons p cells)
  obtain row col where p: "p = (row, col)" by (cases p)
  note prem = Cons.prems[unfolded p]
  from prem obtain a where t: "tileAt nb (int row) (int col) = Some a"
    by (auto split: option.splits)
  show ?case
  proof (cases "isMine (tiles s a)")
    case True
    with prem t have "adjacentLoop s nb cells = Inr (s', nb')" by simp
    from Cons.IH[OF this] show ?thesis .
  next
    case False
    with prem t obtain m where m: "countMines s nb (int row) (int col) offsets 0 = Inr m"
      by (auto split: sum.splits)
    let ?s1 = "fst (newTile s ((tiles s a)\<lparr>adjacentMines := m\<rparr>))"
    from prem t False m
    have "adjacentLoop ?s1 (setTile nb row col (nextRef s)) cells = Inr (s', nb')"
      by (simp add: newTile_def)
    from Cons.IH[OF this] show ?thesis by (simp add: newTile_simps)
  qed
qed

lemma revealBoard_allocated:
  assumes "revealBoard s b = (s', b')"
  shows "allocated s' b'"
proof -
  from revealBoard_spec[OF assms]
  have "list_all2 (list_all2 (\<lambda>a a'. a' < nextRef s')) b b'"
    by (auto elim!: list_all2_mono)
  then show ?thesis using list_all2_concat_all[of "\<lambda>a'. a' < nextRef s'" b b']
    by (simp add: allocated_def list_all_iff)
qed

lemma gameInv_frame:
  assumes "gameInv s st" "nextRef s \<le> nextRef s'" "\<forall>x < nextRef s. tiles s' x = tiles s x"
  shows "gameInv s' st"
proof -
  from assms(1) have al: "\<forall>a \<in> set (concat (board st)). a < nextRef s"
    by (simp add: gameInv_def allocated_def list_all_iff)
  with assms(3) have same: "\<forall>a \<in> set (concat (board st)). tiles s' a = tiles s a" by blast
  have "allocated s' (board st)"
    unfolding allocated_def list_all_iff using al assms(2) by fastforce
  moreover have "noRevealedFlag s' (board st)" if "noRevealedFlag s (board st)"
    using that same by (simp add: noRevealedFlag_def list_all_iff)
  ultimately show ?thesis using assms(1) by (simp add: gameInv_def)
qed

lemma gameInv_start:
  assumes "handleReset ds s0 = Inr (ds', s, st)"
  shows "gameInv s st"
proof -
  from assms obtain b where c: "createEmptyBoard ds s0 = Inr (ds', s, b)"
    and st: "st = \<lparr>board = b, isGameOver = False, isGameWon = False, flagsLeft = INITIAL_FLAGS\<rparr>"
    by (auto simp add: handleReset_def split: sum.splits)
  note f = createEmptyBoard_spec[OF c]
  have "\<not> (isRevealed (tiles s a) \<and> isFlagged (tiles s a))" if "a \<in> set (concat b)" for a
  proof -
    from square_concat_cell[OF f(1) that] obtain r c' where
      "r < BOARD_SIZE" "c' < BOARD_SIZE" "a = b ! r ! c'" by blast
    with f(5) show ?thesis by (auto simp add: cell_def)
  qed
  then have "noRevealedFlag s b" by (simp add: noRevealedFlag_def list_all_iff)
  with f(2) show ?thesis by (simp add: gameInv_def st)
qed

lemma gameInv_flag:
  assumes "gameInv s st" "handleTileRightClick s st row col = Inr (s', st')"
  shows "gameInv s' st'"
proof (cases "isGameOver st \<or> isGameWon st")
  case True
  with assms show ?thesis by (auto simp add: handleTileRightClick_def)
next
  case False
  with assms(2) obtain a where t: "tileAt (board st) row col = Some a"
    by (auto simp add: handleTileRightClick_def Let_def split: option.splits)
  from assms(1) False have al: "allocated s (board st)" and nf: "noRevealedFlag s (board st)"
    by (simp_all add: gameInv_def)
  from assms(2) False t have b: "board st' = board st" "isGameOver st' = isGameOver st"
    "isGameWon st' = isGameWon st" "nextRef s' = nextRef s"
    by (auto simp add: handleTileRightClick_def Let_def split: if_splits)
  from assms(2) False t have
    "\<forall>x. tiles s' x = tiles s x \<or> (\<not> isRevealed (tiles s x) \<and> isRevealed (tiles s' x) = isRevealed (tiles s x))"
    by (auto simp add: handleTileRightClick_def Let_def split: if_splits)
  with nf have "noRevealedFlag s' (board st)"
    unfolding noRevealedFlag_def list_all_iff by metis
  moreover have "allocated s' (board st)" using al b(4) by (simp add: allocated_def)
  ultimately show ?thesis by (simp add: gameInv_def b)
qed

lemma first_reveal_frame:
  assumes "(if list_all (\<lambda>a. \<not> isMine (tiles s a) \<and> \<not> isRevealed (tiles s a)) (concat (board st))
              then (case placeMines ds s (board st) NUM_MINES row col of
                      Inl e \<Rightarrow> Inl e
                    | Inr (ds1, s1, newBoard) \<Rightarrow>
                        (case calculateAdjacentMines s1 newBoard of
                           Inl e \<Rightarrow> Inl e
                         | Inr (s2, newBoard') \<Rightarrow> Inr (ds1, s2, st\<lparr>board := newBoard'\<rparr>)))
              else Inr (ds, s, st)) = Inr (ds1, s1, st1)"
  shows "nextRef s \<le> nextRef s1" "\<forall>x < nextRef s. tiles s1 x = tiles s x"
    "isGameOver st1 = isGameOver st" "isGameWon st1 = isGameWon st"
proof -
  have "nextRef s \<le> nextRef s1 \<and> (\<forall>x < nextRef s. tiles s1 x = tiles s x)
        \<and> isGameOver st1 = isGameOver st \<and> isGameWon st1 = isGameWon st"
  proof (cases "list_all (\<lambda>a. \<not> isMine (tiles s a) \<and> \<not> isRevealed (tiles s a)) (concat (board st))")
    case False
    with assms show ?thesis by simp
  next
    case True
    with assms obtain sp nbp nb' where
      pm: "placeMines ds s (board st) NUM_MINES row col = Inr (ds1, sp, nbp)" and
      ca: "calculateAdjacentMines sp nbp = Inr (s1, nb')" and
      st1: "st1 = st\<lparr>board := nb'\<rparr>"
      by (auto split: sum.splits)
    from pm have f1: "nextRef s \<le> nextRef sp" "\<forall>x < nextRef s. tiles sp x = tiles s x"
      using placeMinesLoop_frame[of ds s "board st" 0 NUM_MINES row col ds1 sp nbp]
      by (simp_all add: placeMines_def)
    from ca have f2: "nextRef sp \<le> nextRef s1" "\<forall>x < nextRef sp. tiles s1 x = tiles sp x"
      using adjacentLoop_frame[of sp nbp allCells s1 nb']
      by (simp_all add: calculateAdjacentMines_def)
    from f1 f2 st1 show ?thesis by auto
  qed
  then show "nextRef s \<le> nextRef s1" "\<forall>x < nextRef s. tiles s1 x = tiles s x"
    "isGameOver st1 = isGameOver st" "isGameWon st1 = isGameWon st" by blast+
qed

lemma handleTileClick_cases:
  assumes "\<not> isGameOver st" "\<not> isGameWon st"
    and "handleTileClick ds s st row col = Inr (ds', s', st')"
  obtains s1 st1 s2 a where
    "nextRef s \<le> nextRef s1" "\<forall>x < nextRef s. tiles s1 x = tiles s x"
    "isGameOver st1 = isGameOver st" "isGameWon st1 = isGameWon st"
    "revealTile s1 (board st) row col = Inr (s2, board st)"
    "onlyReveals s1 s2"
    "tileAt (board st) row col = Some a"
    "isMine (tiles s2 a) \<Longrightarrow>
       s' = fst (revealBoard s2 (board st))
       \<and> st' = st1\<lparr>isGameOver := True, board := snd (revealBoard s2 (board st))\<rparr>"
    "\<not> isMine (tiles s2 a) \<Longrightarrow> checkWinCondition s2 (board st) \<Longrightarrow>
       s' = fst (revealBoard s2 (board st))
       \<and> st' = st1\<lparr>isGameWon := True, board := snd (revealBoard s2 (board st))\<rparr>"
    "\<not> isMine (tiles s2 a) \<Longrightarrow> \<not> checkWinCondition s2 (board st) \<Longrightarrow>
       s' = s2 \<and> st' = st1\<lparr>board := board st\<rparr>"
proof -
  let ?pre = "(if list_all (\<lambda>a. \<not> isMine (tiles s a) \<and> \<not> isRevealed (tiles s a)) (concat (board st))
              then (case placeMines ds s (board st) NUM_MINES row col of
                      Inl e \<Rightarrow> Inl e
                    | Inr (ds1, s1, newBoard) \<Rightarrow>
                        (case calculateAdjacentMines s1 newBoard of
                           Inl e \<Rightarrow> Inl e
                         | Inr (s2, newBoard') \<Rightarrow> Inr (ds1, s2, st\<lparr>board := newBoard'\<rparr>)))
              else Inr (ds, s, st))"
  from assms obtain ds1 s1 st1 where pre: "?pre = Inr (ds1, s1, st1)"
    unfolding handleTileClick_def by (cases ?pre) auto
  note fr = first_reveal_frame[OF pre]
  from assms pre obtain s2 nb where rt: "revealTile s1 (board st) row col = Inr (s2, nb)"
    unfolding handleTileClick_def by (cases "revealTile s1 (board st) row col") auto
  from reveal_onlyReveals(1)[of s1 "board st" row col] rt
  have nb: "nb = board st" and o: "onlyReveals s1 s2" by blast+
  from assms pre rt nb obtain a where t: "tileAt (board st) row col = Some a"
    unfolding handleTileClick_def by (cases "tileAt (board st) row col") auto
  have f1: "s' = fst (revealBoard s2 (board st))
       \<and> st' = st1\<lparr>isGameOver := True, board := snd (revealBoard s2 (board st))\<rparr>"
    if "isMine (tiles s2 a)"
    using assms pre rt nb t that unfolding handleTileClick_def
    by (simp add: case_prod_beta Let_def)
  have f2: "s' = fst (revealBoard s2 (board st))
       \<and> st' = st1\<lparr>isGameWon := True, board := snd (revealBoard s2 (board st))\<rparr>"
    if "\<not> isMine (tiles s2 a)" "checkWinCondition s2 (board st)"
    using assms pre rt nb t that unfolding handleTileClick_def
    by (simp add: case_prod_beta Let_def)
  have f3: "s' = s2 \<and> st' = st1\<lparr>board := board st\<rparr>"
    if "\<not> isMine (tiles s2 a)" "\<not> checkWinCondition s2 (board st)"
    using assms pre rt nb t that unfolding handleTileClick_def
    by (simp add: case_prod_beta Let_def)
  show thesis
    by (rule that[OF fr rt[unfolded nb] o t f1 f2 f3])
qed

lemma gameInv_click:
  assumes "gameInv s st" "handleTileClick ds s st row col = Inr (ds', s', st')"
  shows "gameInv s' st'"
proof (cases "isGameOver st \<or> isGameWon st")
  case True
  with assms show ?thesis by (auto simp add: handleTileClick_def)
next
  case False
  then have ip: "\<not> isGameOver st" "\<not> isGameWon st" by simp_all
  show ?thesis
  proof (rule handleTileClick_cases[OF ip assms(2)])
    fix s1 st1 s2 a
    assume h: "nextRef s \<le> nextRef s1" "\<forall>x < nextRef s. tiles s1 x = tiles s x"
      "isGameOver st1 = isGameOver st" "isGameWon st1 = isGameWon st"
      "revealTile s1 (board st) row col = Inr (s2, board st)"
      "onlyReveals s1 s2"
      "tileAt (board st) row col = Some a"
    and lose: "isMine (tiles s2 a) \<Longrightarrow>
       s' = fst (revealBoard s2 (board st))
       \<and> st' = st1\<lparr>isGameOver := True, board := snd (revealBoard s2 (board st))\<rparr>"
    and win: "\<not> isMine (tiles s2 a) \<Longrightarrow> checkWinCondition s2 (board st) \<Longrightarrow>
       s' = fst (revealBoard s2 (board st))
       \<and> st' = st1\<lparr>isGameWon := True, board := snd (revealBoard s2 (board st))\<rparr>"
    and go: "\<not> isMine (tiles s2 a) \<Longrightarrow> \<not> checkWinCondition s2 (board st) \<Longrightarrow>
       s' = s2 \<and> st' = st1\<lparr>board := board st\<rparr>"
    from gameInv_frame[OF assms(1) h(1,2)] ip
    have al1: "allocated s1 (board st)" and nf1: "noRevealedFlag s1 (board st)"
      by (simp_all add: gameInv_def)
    from h(6) have n2: "nextRef s2 = nextRef s1"
      and t2: "\<And>x. tiles s2 x = tiles s1 x
          \<or> (\<not> isRevealed (tiles s1 x) \<and> \<not> isFlagged (tiles s1 x)
              \<and> tiles s2 x = (tiles s1 x)\<lparr>isRevealed := True\<rparr>)"
      by (simp_all add: onlyReveals_def)
    have al2: "allocated s2 (board st)" using al1 n2 by (simp add: allocated_def)
    have nf2: "noRevealedFlag s2 (board st)"
      unfolding noRevealedFlag_def list_all_iff
    proof
      fix x assume "x \<in> set (concat (board st))"
      with nf1 have "\<not> (isRevealed (tiles s1 x) \<and> isFlagged (tiles s1 x))"
        unfolding noRevealedFlag_def list_all_iff by blast
      with t2[of x] show "\<not> (isRevealed (tiles s2 x) \<and> isFlagged (tiles s2 x))" by auto
    qed
    have shown: "allocated (fst (revealBoard s2 (board st))) (snd (revealBoard s2 (board st)))"
      by (rule revealBoard_allocated) simp
    show "gameInv s' st'"
    proof (cases "isMine (tiles s2 a)")
      case True
      from lose[OF True] have "board st' = snd (revealBoard s2 (board st))" "isGameOver st'"
        "s' = fst (revealBoard s2 (board st))" by simp_all
      with shown show ?thesis by (simp add: gameInv_def)
    next
      case nm: False
      show ?thesis
      proof (cases "checkWinCondition s2 (board st)")
        case True
        from win[OF nm True] have "board st' = snd (revealBoard s2 (board st))" "isGameWon st'"
          "s' = fst (revealBoard s2 (board st))" by simp_all
        with shown show ?thesis by (simp add: gameInv_def)
      next
        case False
        from go[OF nm False] have "board st' = board st" "s' = s2" by simp_all
        with al2 nf2 show ?thesis by (simp add: gameInv_def)
      qed
    qed
  qed
qed

lemma reachable_gameInv: "reachable s st \<Longrightarrow> gameInv s st"
proof (induction rule: reachable.induct)
  case (start ds s0 ds' s st)
  then show ?case by (rule gameInv_start)
next
  case (render s st ds ds' s' b)
  from render.IH createEmptyBoard_spec(3,4)[OF render.hyps(2)]
  show ?case by (rule gameInv_frame)
next
  case (click s st row col a ds ds' s' st')
  from click.IH click.hyps(3) show ?case by (rule gameInv_click)
next
  case (flag s st row col a s' st')
  from flag.IH flag.hyps(3) show ?case by (rule gameInv_flag)
qed

lemma reachable_fresh: "reachable freshStore freshGame"
  using fresh_reset by (rule reachable.start)

lemma list_all2_nth2:
  assumes "list_all2 (list_all2 P) b b'" "r < length b" "c < length (b ! r)"
  shows "P (b ! r ! c) (b' ! r ! c)"
proof -
  from assms(1,2) have "list_all2 P (b ! r) (b' ! r)" by (rule list_all2_nthD)
  then show ?thesis using assms(3) by (rule list_all2_nthD)
qed

lemma revealBoard_cell:
  assumes "revealBoard s b = (s', b')" "allocated s b" "r < length b" "c < length (b ! r)"
  shows "cell s' b' r c = (cell s b r c)\<lparr>isRevealed := True\<rparr>"
proof -
  have "b ! r ! c \<in> set (concat b)" using assms(3,4) by (auto intro!: bexI[of _ "b ! r"])
  with assms(2) have lt: "b ! r ! c < nextRef s" unfolding allocated_def list_all_iff by blast
  from revealBoard_spec[OF assms(1)]
  have "list_all2 (list_all2 (\<lambda>a a'. a < nextRef s \<longrightarrow> tiles s' a' = (tiles s a)\<lparr>isRevealed := True\<rparr>)) b b'"
    by (auto elim!: list_all2_mono)
  from list_all2_nth2[OF this assms(3,4)] lt show ?thesis by (simp add: cell_def)
qed

lemma click_mine_loses:
  assumes "\<not> isGameOver st" "\<not> isGameWon st" "square (board st)"
    and "0 \<le> row" "row < int BOARD_SIZE" "0 \<le> col" "col < int BOARD_SIZE"
    and "isMine (cell s (board st) (nat row) (nat col))"
  shows "\<exists>s2. revealTile s (board st) row col = Inr (s2, board st)
           \<and> handleTileClick ds s st row col
               = Inr (ds, fst (revealBoard s2 (board st)),
                      st\<lparr>isGameOver := True, board := snd (revealBoard s2 (board st))\<rparr>)"
proof -
  let ?a = "board st ! nat row ! nat col"
  have t: "tileAt (board st) row col = Some ?a" using assms(3-7) by (rule square_tileAt)
  have m: "isMine (tiles s ?a)" using assms(8) by (simp add: cell_def)
  have "?a \<in> set (concat (board st))" using t by (rule tileAt_mem)
  with m have nofirst:
    "\<not> list_all (\<lambda>a. \<not> isMine (tiles s a) \<and> \<not> isRevealed (tiles s a)) (concat (board st))"
    by (auto simp add: list_all_iff)
  from reveal_returns(1)[of "board st" row col s] assms(3-7)
  obtain s2 where rt: "revealTile s (board st) row col = Inr (s2, board st)" by blast
  with reveal_onlyReveals(1)[of s "board st" row col] have "onlyReveals s s2" by blast
  then have "tiles s2 ?a = tiles s ?a \<or> tiles s2 ?a = (tiles s ?a)\<lparr>isRevealed := True\<rparr>"
    unfolding onlyReveals_def by blast
  with m have m2: "isMine (tiles s2 ?a)" by auto
  have "handleTileClick ds s st row col
               = Inr (ds, fst (revealBoard s2 (board st)),
                      st\<lparr>isGameOver := True, board := snd (revealBoard s2 (board st))\<rparr>)"
    unfolding handleTileClick_def using assms(1,2) nofirst rt t m2
    by (simp add: case_prod_beta)
  with rt show ?thesis by blast
qed

lemma fresh_square: "square (board freshGame)"
  and fresh_allocated: "allocated freshStore (board freshGame)"
  and fresh_hidden: "\<not> isRevealed (cell freshStore (board freshGame) 0 0)"
    "\<not> isFlagged (cell freshStore (board freshGame) 0 0)"
proof -
  have z: "(0::nat) < BOARD_SIZE" by (simp add: BOARD_SIZE_def)
  show "square (board freshGame)" by (rule fresh_board_facts(1))
  show "allocated freshStore (board freshGame)" by (rule fresh_board_facts(2))
  show "\<not> isRevealed (cell freshStore (board freshGame) 0 0)"
    "\<not> isFlagged (cell freshStore (board freshGame) 0 0)"
    using fresh_board_facts(5) z by blast+
qed

lemma fresh_tileAt: "tileAt (board freshGame) 0 0 = Some (board freshGame ! 0 ! 0)"
  using square_tileAt[OF fresh_square, of 0 0] by (simp add: BOARD_SIZE_def)

lemma flagged_facts:
  "handleTileRightClick freshStore freshGame 0 0 = Inr (flaggedStore, flaggedGame)"
  "flaggedStore = writeTile freshStore (board freshGame ! 0 ! 0)
                    ((cell freshStore (board freshGame) 0 0)\<lparr>isFlagged := True\<rparr>)"
  "flaggedGame = freshGame\<lparr>flagsLeft := 9\<rparr>"
proof -
  have r: "flaggedResult
      = Inr (writeTile freshStore (board freshGame ! 0 ! 0)
                    ((cell freshStore (board freshGame) 0 0)\<lparr>isFlagged := True\<rparr>),
             freshGame\<lparr>flagsLeft := 9\<rparr>)"
    unfolding flaggedResult_def handleTileRightClick_def
    using fresh_status fresh_tileAt fresh_hidden by (simp add: cell_def Let_def)
  show "flaggedStore = writeTile freshStore (board freshGame ! 0 ! 0)
                    ((cell freshStore (board freshGame) 0 0)\<lparr>isFlagged := True\<rparr>)"
    and "flaggedGame = freshGame\<lparr>flagsLeft := 9\<rparr>"
    by (simp_all add: flaggedStore_def flaggedGame_def r)
  then show "handleTileRightClick freshStore freshGame 0 0 = Inr (flaggedStore, flaggedGame)"
    using r by (simp add: flaggedResult_def)
qed

lemma flagged_tile:
  "tiles flaggedStore (board freshGame ! 0 ! 0)
     = (cell freshStore (board freshGame) 0 0)\<lparr>isFlagged := True\<rparr>"
  by (simp add: flagged_facts(2))

lemma lost_facts:
  "handleTileClick [] flaggedStore flaggedGame 0 0 = Inr ([], lostStore, lostGame)"
  "isGameOver lostGame"
  "cell lostStore (board lostGame) 0 0
     = (cell freshStore (board freshGame) 0 0)\<lparr>isFlagged := True, isRevealed := True\<rparr>"
proof -
  let ?a = "board freshGame ! 0 ! 0"
  have ip: "\<not> isGameOver flaggedGame" "\<not> isGameWon flaggedGame"
    using fresh_status by (simp_all add: flagged_facts(3))
  have b: "board flaggedGame = board freshGame" by (simp add: flagged_facts(3))
  have t: "tileAt (board flaggedGame) 0 0 = Some ?a" using fresh_tileAt by (simp add: b)
  have m: "isMine (tiles flaggedStore ?a)" "isFlagged (tiles flaggedStore ?a)"
    using fresh_mine by (simp_all add: flagged_tile cell_def)
  have r: "lostResult = Inr ([], fst (revealBoard flaggedStore (board flaggedGame)),
                flaggedGame\<lparr>isGameOver := True,
                            board := snd (revealBoard flaggedStore (board flaggedGame))\<rparr>)"
    unfolding lostResult_def by (rule click_flagged_mine[OF ip t m])
  have s: "lostStore = fst (revealBoard flaggedStore (board freshGame))"
    and g: "lostGame = flaggedGame\<lparr>isGameOver := True,
                            board := snd (revealBoard flaggedStore (board freshGame))\<rparr>"
    by (simp_all add: lostStore_def lostGame_def r b)
  show "handleTileClick [] flaggedStore flaggedGame 0 0 = Inr ([], lostStore, lostGame)"
    using r by (simp add: lostResult_def s g b)
  show "isGameOver lostGame" by (simp add: g)
  have al: "allocated flaggedStore (board freshGame)"
    using fresh_allocated by (simp add: allocated_def flagged_facts(2))
  have z: "0 < length (board freshGame)" "0 < length (board freshGame ! 0)"
    using square_nth[OF fresh_square, of 0] by (simp_all add: BOARD_SIZE_def)
  have "cell lostStore (board lostGame) 0 0
      = (cell flaggedStore (board freshGame) 0 0)\<lparr>isRevealed := True\<rparr>"
    unfolding s g using revealBoard_cell[OF _ al z] by simp
  then show "cell lostStore (board lostGame) 0 0
     = (cell freshStore (board freshGame) 0 0)\<lparr>isFlagged := True, isRevealed := True\<rparr>"
    using flagged_tile by (simp add: cell_def)
qed

lemma first_click_facts:
  "handleTileClick [] freshStore freshGame 0 0 = Inr ([], firstClickStore, firstClickGame)"
  "isGameOver firstClickGame"
proof -
  have h: "(0::int) \<le> 0" "(0::int) < int BOARD_SIZE" by (simp_all add: BOARD_SIZE_def)
  have m: "isMine (cell freshStore (board freshGame) (nat 0) (nat 0))"
    using fresh_mine by simp
  from click_mine_loses[OF fresh_status(1,2) fresh_square h h m, of "[]"]
  obtain s2 where r: "firstClickResult
               = Inr ([], fst (revealBoard s2 (board freshGame)),
                      freshGame\<lparr>isGameOver := True, board := snd (revealBoard s2 (board freshGame))\<rparr>)"
    unfolding firstClickResult_def by blast
  have s: "firstClickStore = fst (revealBoard s2 (board freshGame))"
    and g: "firstClickGame = freshGame\<lparr>isGameOver := True,
                                board := snd (revealBoard s2 (board freshGame))\<rparr>"
    by (simp_all add: firstClickStore_def firstClickGame_def r)
  show "handleTileClick [] freshStore freshGame 0 0 = Inr ([], firstClickStore, firstClickGame)"
    using r by (simp add: firstClickResult_def s g)
  show "isGameOver firstClickGame" by (simp add: g)
qed

lemma fresh_none_revealed:
  "list_all (\<lambda>a. \<not> isRevealed (tiles freshStore a)) (concat (board freshGame))"
  unfolding list_all_iff
proof
  fix a assume "a \<in> set (concat (board freshGame))"
  from square_concat_cell[OF fresh_square this] obtain r c where
    "r < BOARD_SIZE" "c < BOARD_SIZE" "a = board freshGame ! r ! c" by blast
  with fresh_board_facts(5) show "\<not> isRevealed (tiles freshStore a)" by (auto simp add: cell_def)
qed

lemma placeMinesLoop_shape:
  assumes "placeMinesLoop ds s nb k n r c = Inr (ds', s', nb')" "square nb" "allocated s nb"
  shows "square nb' \<and> allocated s' nb'"
  using assms
proof (induction ds arbitrary: s nb k)
  case Nil
  then have "s' = s" "nb' = nb"
    by (auto simp add: placeMinesLoop.simps[of "[]"] split: if_splits)
  with Nil.prems show ?case by simp
next
  case (Cons p ds)
  obtain row col where p: "p = (row, col)" by (cases p)
  note prem = Cons.prems(1)[unfolded p]
  note unf = placeMinesLoop.simps[of "(row, col) # ds" s nb k n r c]
  show ?case
  proof (cases "k < n")
    case False
    with prem have "s' = s" "nb' = nb" by (simp_all add: unf)
    with Cons.prems show ?thesis by simp
  next
    case True
    with prem obtain a where t: "tileAt nb (int row) (int col) = Some a"
      by (auto simp add: unf split: option.splits)
    show ?thesis
    proof (cases "\<not> isMine (tiles s a) \<and> \<not> (int row = r \<and> int col = c)")
      case False
      with prem True t have "placeMinesLoop ds s nb k n r c = Inr (ds', s', nb')"
        by (auto simp add: unf)
      from Cons.IH[OF this Cons.prems(2,3)] show ?thesis .
    next
      case place: True
      let ?s1 = "fst (newTile s ((tiles s a)\<lparr>isMine := True\<rparr>))"
      let ?nb1 = "setTile nb row col (nextRef s)"
      from prem True t place
      have step: "placeMinesLoop ds ?s1 ?nb1 (k + 1) n r c = Inr (ds', s', nb')"
        by (simp add: unf newTile_def)
      have sq: "square ?nb1" using Cons.prems(2) by (rule square_setTile)
      have al: "allocated ?s1 ?nb1"
        by (rule allocated_setTile[OF Cons.prems(3)]) (simp_all add: newTile_simps)
      from Cons.IH[OF step sq al] show ?thesis .
    qed
  qed
qed

lemma list_all2_concat_transfer:
  assumes "list_all2 (list_all2 R) b b'" "\<forall>a \<in> set (concat b). P a"
    and "\<And>a a'. R a a' \<Longrightarrow> P a \<Longrightarrow> Q a'"
  shows "\<forall>a' \<in> set (concat b'). Q a'"
proof
  fix a' assume "a' \<in> set (concat b')"
  then obtain row' where row': "row' \<in> set b'" "a' \<in> set row'" by auto
  then obtain r where r: "r < length b'" "row' = b' ! r" by (auto simp add: in_set_conv_nth)
  from row'(2) r obtain c where c: "c < length (b' ! r)" "a' = b' ! r ! c"
    by (auto simp add: in_set_conv_nth)
  from assms(1) have len: "length b = length b'" by (rule list_all2_lengthD)
  with r have rb: "r < length b" by simp
  from assms(1) rb have rows: "list_all2 R (b ! r) (b' ! r)" by (rule list_all2_nthD)
  then have "length (b ! r) = length (b' ! r)" by (rule list_all2_lengthD)
  with c have cb: "c < length (b ! r)" by simp
  from rows cb have "R (b ! r ! c) (b' ! r ! c)" by (rule list_all2_nthD)
  moreover have "b ! r ! c \<in> set (concat b)" using rb cb by (auto intro!: bexI[of _ "b ! r"])
  ultimately show "Q a'" using assms(2,3) c(2) by blast
qed

lemma first_reveal_stale:
  assumes "\<not> isGameOver st" "\<not> isGameWon st"
    and "list_all (\<lambda>a. \<not> isMine (tiles s a) \<and> \<not> isRevealed (tiles s a)) (concat (board st))"
    and "allocated s (board st)"
    and "handleTileClick ds s st row col = Inr (ds', s', st')"
  shows "list_all (\<lambda>a. \<not> isMine (tiles s' a)) (concat (board st'))" "\<not> isGameOver st'"
proof -
  have "list_all (\<lambda>a. \<not> isMine (tiles s' a)) (concat (board st')) \<and> \<not> isGameOver st'"
  proof (rule handleTileClick_cases[OF assms(1,2,5)])
    fix s1 st1 s2 a
    assume h: "nextRef s \<le> nextRef s1" "\<forall>x < nextRef s. tiles s1 x = tiles s x"
      "isGameOver st1 = isGameOver st" "isGameWon st1 = isGameWon st"
      "revealTile s1 (board st) row col = Inr (s2, board st)"
      "onlyReveals s1 s2"
      "tileAt (board st) row col = Some a"
    and lose: "isMine (tiles s2 a) \<Longrightarrow>
       s' = fst (revealBoard s2 (board st))
       \<and> st' = st1\<lparr>isGameOver := True, board := snd (revealBoard s2 (board st))\<rparr>"
    and win: "\<not> isMine (tiles s2 a) \<Longrightarrow> checkWinCondition s2 (board st) \<Longrightarrow>
       s' = fst (revealBoard s2 (board st))
       \<and> st' = st1\<lparr>isGameWon := True, board := snd (revealBoard s2 (board st))\<rparr>"
    and go: "\<not> isMine (tiles s2 a) \<Longrightarrow> \<not> checkWinCondition s2 (board st) \<Longrightarrow>
       s' = s2 \<and> st' = st1\<lparr>board := board st\<rparr>"
    have lt: "\<forall>x \<in> set (concat (board st)). x < nextRef s"
      using assms(4) by (simp add: allocated_def list_all_iff)
    have nm2: "\<forall>x \<in> set (concat (board st)). \<not> isMine (tiles s2 x) \<and> x < nextRef s2"
    proof
      fix x assume x: "x \<in> set (concat (board st))"
      with assms(3) have "\<not> isMine (tiles s x)" unfolding list_all_iff by blast
      moreover from lt x h(2) have "tiles s1 x = tiles s x" by blast
      moreover from h(6) have "tiles s2 x = tiles s1 x \<or> tiles s2 x = (tiles s1 x)\<lparr>isRevealed := True\<rparr>"
        unfolding onlyReveals_def by blast
      ultimately have "\<not> isMine (tiles s2 x)" by auto
      moreover from h(6) have "nextRef s2 = nextRef s1" by (simp add: onlyReveals_def)
      moreover from lt x have "x < nextRef s" by blast
      ultimately show "\<not> isMine (tiles s2 x) \<and> x < nextRef s2" using h(1) by simp
    qed
    have a: "\<not> isMine (tiles s2 a)" using nm2 tileAt_mem[OF h(7)] by blast
    show "list_all (\<lambda>a. \<not> isMine (tiles s' a)) (concat (board st')) \<and> \<not> isGameOver st'"
    proof (cases "checkWinCondition s2 (board st)")
      case False
      from go[OF a False] nm2 h(3) assms(1) show ?thesis by (simp add: list_all_iff)
    next
      case True
      obtain s3 shown where rb: "revealBoard s2 (board st) = (s3, shown)" by fastforce
      from revealBoard_spec[OF rb]
      have "list_all2 (list_all2 (\<lambda>a a'. a < nextRef s2 \<longrightarrow>
               tiles s3 a' = (tiles s2 a)\<lparr>isRevealed := True\<rparr>)) (board st) shown"
        by (auto elim!: list_all2_mono)
      from list_all2_concat_transfer[OF this nm2, of "\<lambda>a'. \<not> isMine (tiles s3 a')"]
      have "\<forall>a' \<in> set (concat shown). \<not> isMine (tiles s3 a')" by simp
      with win[OF a True] rb h(3) assms(1) show ?thesis by (simp add: list_all_iff)
    qed
  qed
  then show "list_all (\<lambda>a. \<not> isMine (tiles s' a)) (concat (board st'))" "\<not> isGameOver st'"
    by simp_all
qed

lemma more_place:
  "\<exists>sp nbp. placeMines moreDraws blankStore gridBoard NUM_MINES 0 0 = Inr ([], sp, nbp)"
  by (simp add: placeMines_def placeMinesLoop.simps moreDraws_def sampleDraws_def tileAt_def
        gridBoard_def blankStore_def blankTile_def NUM_MINES_def newTile_def setTile_def)

lemma blank_first: 
  "list_all (\<lambda>a. \<not> isMine (tiles blankStore a) \<and> \<not> isRevealed (tiles blankStore a))
     (concat (board blankGame))"
  by (simp add: list_all_iff blankStore_def blankTile_def)

lemma stale_click:
  "handleTileClick moreDraws blankStore blankGame 0 0 = Inr ([], staleStore, staleGame)"
proof -
  have ip: "\<not> isGameOver blankGame" "\<not> isGameWon blankGame" "board blankGame = gridBoard"
    by (simp_all add: blankGame_def)
  have al: "allocated blankStore gridBoard"
    by (rule allocated_gridBoard) (simp add: blankStore_def)
  from more_place obtain sp nbp where
    pm: "placeMines moreDraws blankStore gridBoard NUM_MINES 0 0 = Inr ([], sp, nbp)" by blast
  then have "placeMinesLoop moreDraws blankStore gridBoard 0 NUM_MINES 0 0 = Inr ([], sp, nbp)"
    by (simp add: placeMines_def)
  from placeMinesLoop_shape[OF this square_gridBoard al]
  have sh: "square nbp" "allocated sp nbp" by simp_all
  from calculateAdjacentMines_spec[OF sh] obtain s1 nb1 where
    ca: "calculateAdjacentMines sp nbp = Inr (s1, nb1)" by blast
  have h: "(0::int) \<le> 0" "(0::int) < int BOARD_SIZE" by (simp_all add: BOARD_SIZE_def)
  from reveal_returns(1)[of gridBoard 0 0 s1] square_gridBoard h
  obtain s2 where rt: "revealTile s1 gridBoard 0 0 = Inr (s2, gridBoard)" by blast
  have t: "tileAt gridBoard 0 0 = Some 0" by (simp add: tileAt_def gridBoard_def)
  have "\<exists>s' st'. staleResult = Inr ([], s', st')"
    unfolding staleResult_def handleTileClick_def
    using ip blank_first pm ca rt t by (simp add: case_prod_beta Let_def)
  then obtain s' st' where r: "staleResult = Inr ([], s', st')" by blast
  have "staleStore = s'" "staleGame = st'"
    by (simp_all add: staleStore_def staleGame_def r)
  with r show ?thesis by (simp add: staleResult_def)
qed

lemma stale_board:
  "list_all (\<lambda>a. \<not> isMine (tiles staleStore a)) (concat (board staleGame))"
  "\<not> isGameOver staleGame"
proof -
  have ip: "\<not> isGameOver blankGame" "\<not> isGameWon blankGame"
    by (simp_all add: blankGame_def)
  have al: "allocated blankStore (board blankGame)"
    unfolding blankGame_def by simp (rule allocated_gridBoard, simp add: blankStore_def)
  show "list_all (\<lambda>a. \<not> isMine (tiles staleStore a)) (concat (board staleGame))"
    by (rule first_reveal_stale(1)[OF ip blank_first al stale_click])
  show "\<not> isGameOver staleGame"
    by (rule first_reveal_stale(2)[OF ip blank_first al stale_click])
qed

subsection \<open>A game in progress, and the end of a game\<close>

lemma sample_seed_safe:
  "\<exists>s2. seedMines sampleDraws blankStore gridBoard 0 = Inr ([], s2)
        \<and> \<not> isMine (tiles s2 1)"
  by (simp add: seedMines.simps sampleDraws_def tileAt_def gridBoard_def blankStore_def
        blankTile_def NUM_MINES_def)

lemma fresh_safe: "\<not> isMine (cell freshStore (board freshGame) 0 1)"
proof -
  from sample_seed_safe obtain s2 where
    sm: "seedMines sampleDraws blankStore gridBoard 0 = Inr ([], s2)"
    and m: "\<not> isMine (tiles s2 1)"
    by blast
  have "nextRef s2 = nextRef blankStore" using seedMines_spec[OF sm] by simp
  then have al: "allocated s2 gridBoard"
    by (intro allocated_gridBoard) (simp add: blankStore_def)
  from calculateAdjacentMines_spec[OF square_gridBoard al] obtain s3 b3 where
    c: "calculateAdjacentMines s2 gridBoard = Inr (s3, b3)"
       "\<forall>r < BOARD_SIZE. \<forall>c < BOARD_SIZE.
                 cell s3 b3 r c =
                   (if isMine (cell s2 gridBoard r c) then cell s2 gridBoard r c
                    else (cell s2 gridBoard r c)\<lparr>adjacentMines := mineNeighbours s2 gridBoard r c\<rparr>)"
    by blast
  have "createEmptyBoard sampleDraws emptyStore = Inr ([], s3, b3)"
    by (simp add: createEmptyBoard_def fresh_gridBoard sm c(1))
  with fresh_create have e: "s3 = freshStore" "b3 = board freshGame" by simp_all
  have g: "cell s2 gridBoard 0 1 = tiles s2 1" by (simp add: cell_def gridBoard_def)
  have "(0::nat) < BOARD_SIZE" "(1::nat) < BOARD_SIZE" by (simp_all add: BOARD_SIZE_def)
  with c(2) have "cell s3 b3 0 1 =
                   (if isMine (cell s2 gridBoard 0 1) then cell s2 gridBoard 0 1
                    else (cell s2 gridBoard 0 1)\<lparr>adjacentMines := mineNeighbours s2 gridBoard 0 1\<rparr>)"
    by blast
  with m g have "\<not> isMine (cell s3 b3 0 1)" by simp
  then show ?thesis by (simp add: e)
qed

lemma fresh_adjacent: "adjacentMines (cell freshStore (board freshGame) 0 1) \<noteq> 0"
proof -
  let ?S = "{(r', c'). r' < BOARD_SIZE \<and> c' < BOARD_SIZE \<and> (r', c') \<noteq> (0, 1)
                     \<and> r' \<le> 0 + 1 \<and> 0 \<le> r' + 1 \<and> c' \<le> 1 + 1 \<and> 1 \<le> c' + 1
                     \<and> isMine (cell freshStore (board freshGame) r' c')}"
  have "(0::nat) < BOARD_SIZE" "(1::nat) < BOARD_SIZE" by (simp_all add: BOARD_SIZE_def)
  with fresh_board_facts(7) have "adjacentMines (cell freshStore (board freshGame) 0 1)
      = (if isMine (cell freshStore (board freshGame) 0 1) then 0
         else mineNeighbours freshStore (board freshGame) 0 1)" by blast
  with fresh_safe have a: "adjacentMines (cell freshStore (board freshGame) 0 1) = card ?S"
    by (simp add: mineNeighbours_def)
  have "?S \<subseteq> {..<BOARD_SIZE} \<times> {..<BOARD_SIZE}" by auto
  then have fin: "finite ?S" by (rule finite_subset) simp
  have "(0, 0) \<in> ?S" using fresh_mine by (simp add: BOARD_SIZE_def)
  with fin have "card ?S \<noteq> 0" by auto
  with a show ?thesis by simp
qed

lemma click_goes_on:
  assumes "\<not> isGameOver st" "\<not> isGameWon st" "tileAt (board st) row col = Some a"
    and "\<not> list_all (\<lambda>a. \<not> isMine (tiles s a) \<and> \<not> isRevealed (tiles s a)) (concat (board st))"
    and "revealTile s (board st) row col = Inr (s2, board st)"
    and "\<not> isMine (tiles s2 a)" and "\<not> checkWinCondition s2 (board st)"
  shows "handleTileClick ds s st row col = Inr (ds, s2, st\<lparr>board := board st\<rparr>)"
  unfolding handleTileClick_def using assms by (simp add: case_prod_beta Let_def)

lemma fresh_distinct: "distinctCells (board freshGame)"
  by (rule createEmptyBoard_distinct[OF fresh_create])

lemma played_facts:
  "handleTileClick [] flaggedStore flaggedGame 0 1 = Inr ([], playedStore, playedGame)"
  "\<not> isGameOver playedGame" "\<not> isGameWon playedGame"
  "isFlagged (cell playedStore (board playedGame) 0 0)"
  "isRevealed (cell playedStore (board playedGame) 0 (Suc 0))"
  "tileAt (board flaggedGame) 0 1 = Some (board freshGame ! 0 ! Suc 0)"
proof -
  let ?b = "board freshGame"
  let ?a0 = "?b ! 0 ! 0"
  let ?a1 = "?b ! 0 ! Suc 0"
  let ?s2 = "writeTile flaggedStore ?a1 ((tiles flaggedStore ?a1)\<lparr>isRevealed := True\<rparr>)"
  have lt: "(0::nat) < BOARD_SIZE" "Suc 0 < BOARD_SIZE" by (simp_all add: BOARD_SIZE_def)
  have ip: "\<not> isGameOver flaggedGame" "\<not> isGameWon flaggedGame"
    using fresh_status by (simp_all add: flagged_facts(3))
  have b: "board flaggedGame = ?b" by (simp add: flagged_facts(3))
  have t: "tileAt (board flaggedGame) 0 1 = Some ?a1"
    using square_tileAt[OF fresh_square, of 0 1] by (simp add: b BOARD_SIZE_def)
  have m0: "isMine (tiles freshStore ?a0)" using fresh_mine by (simp add: cell_def)
  have m1: "\<not> isMine (tiles freshStore ?a1)" using fresh_safe by (simp add: cell_def)
  from m0 m1 have ne: "?a1 \<noteq> ?a0" by auto
  have f1: "tiles flaggedStore ?a1 = tiles freshStore ?a1"
    using ne by (simp add: flagged_facts(2))
  have hid: "\<not> isRevealed (cell freshStore ?b r c) \<and> \<not> isFlagged (cell freshStore ?b r c)"
    if "r < BOARD_SIZE" "c < BOARD_SIZE" for r c
    using fresh_board_facts(5) that by blast
  from hid[OF lt] have h1: "\<not> isRevealed (tiles flaggedStore ?a1)"
    "\<not> isFlagged (tiles flaggedStore ?a1)" by (simp_all add: f1 cell_def)
  have z1: "adjacentMines (tiles flaggedStore ?a1) \<noteq> 0"
    using fresh_adjacent by (simp add: f1 cell_def)
  have "?a0 \<in> set (concat (board flaggedGame))"
    unfolding b using fresh_square lt(1) lt(1) by (rule square_cell_mem)
  moreover have "isMine (tiles flaggedStore ?a0)" using m0 by (simp add: flagged_tile cell_def)
  ultimately have nofirst: "\<not> list_all (\<lambda>a. \<not> isMine (tiles flaggedStore a)
       \<and> \<not> isRevealed (tiles flaggedStore a)) (concat (board flaggedGame))"
    by (auto simp add: list_all_iff)
  have rt: "revealTile flaggedStore (board flaggedGame) 0 1 = Inr (?s2, board flaggedGame)"
    using t h1 z1 by (simp add: revealTile.simps Let_def)
  have nm: "\<not> isMine (tiles ?s2 ?a1)" using m1 by (simp add: f1)
  have sub: "revealedSafeCells ?s2 ?b \<subseteq> {(0, Suc 0)}"
  proof
    fix x assume x: "x \<in> revealedSafeCells ?s2 ?b"
    obtain r c where rc: "x = (r, c)" by (cases x)
    from x have r: "r < length ?b" and c: "c < length (?b ! r)"
      and rv: "isRevealed (tiles ?s2 (?b ! r ! c))"
      by (simp_all add: rc revealedSafeCells_def cell_def)
    from r fresh_square have r': "r < BOARD_SIZE" by (simp add: square_def)
    with c square_nth(2)[OF fresh_square] have c': "c < BOARD_SIZE" by simp
    have "?b ! r ! c = ?a1"
    proof (rule ccontr)
      assume n: "?b ! r ! c \<noteq> ?a1"
      then have "tiles ?s2 (?b ! r ! c) = tiles flaggedStore (?b ! r ! c)" by simp
      with rv have "isRevealed (tiles flaggedStore (?b ! r ! c))" by simp
      then have "isRevealed (tiles freshStore (?b ! r ! c))"
        by (cases "?b ! r ! c = ?a0") (simp_all add: flagged_facts(2) cell_def)
      with hid[OF r' c'] show False by (simp add: cell_def)
    qed
    with fresh_distinct r' c' lt have "r = 0 \<and> c = Suc 0"
      unfolding distinctCells_def by blast
    then show "x \<in> {(0, Suc 0)}" by (simp add: rc)
  qed
  have "card (revealedSafeCells ?s2 ?b) \<le> card {(0::nat, Suc 0)}"
    by (rule card_mono[OF _ sub]) simp
  then have nw: "\<not> checkWinCondition ?s2 (board flaggedGame)"
    unfolding b checkWin_count by (simp add: BOARD_SIZE_def NUM_MINES_def)
  have r: "playedResult = Inr ([], ?s2, flaggedGame\<lparr>board := board flaggedGame\<rparr>)"
    unfolding playedResult_def by (rule click_goes_on[OF ip t nofirst rt _ nw]) (rule nm)
  have s: "playedStore = ?s2" and g: "playedGame = flaggedGame\<lparr>board := board flaggedGame\<rparr>"
    by (simp_all add: playedStore_def playedGame_def r)
  show "handleTileClick [] flaggedStore flaggedGame 0 1 = Inr ([], playedStore, playedGame)"
    using r by (simp add: playedResult_def s g)
  show "\<not> isGameOver playedGame" "\<not> isGameWon playedGame" using ip by (simp_all add: g)
  show "isFlagged (cell playedStore (board playedGame) 0 0)"
    using ne by (simp add: s g b cell_def flagged_facts(2))
  show "isRevealed (cell playedStore (board playedGame) 0 (Suc 0))"
    by (simp add: s g b cell_def)
  show "tileAt (board flaggedGame) 0 1 = Some ?a1" by (rule t)
qed

lemma reachable_flagged: "reachable flaggedStore flaggedGame"
  using reachable_fresh fresh_tileAt flagged_facts(1) by (rule reachable.flag)

lemma reachable_played: "reachable playedStore playedGame"
  using reachable_flagged played_facts(6) played_facts(1) by (rule reachable.click)

lemma reachable_lost: "reachable lostStore lostGame"
proof -
  have "tileAt (board flaggedGame) 0 0 = Some (board freshGame ! 0 ! 0)"
    using fresh_tileAt by (simp add: flagged_facts(3))
  with reachable_flagged show ?thesis using lost_facts(1) by (rule reachable.click)
qed

lemma allRevealed_frame:
  assumes "allocated s b" "allRevealed s b" "\<forall>x < nextRef s. tiles s' x = tiles s x"
  shows "allRevealed s' b"
  using assms unfolding allocated_def allRevealed_def list_all_iff by simp

lemma reachable_endInv: "reachable s st \<Longrightarrow> endInv s st"
proof (induction rule: reachable.induct)
  case (start ds s0 ds' s st)
  from start obtain b where c: "createEmptyBoard ds s0 = Inr (ds', s, b)"
    and st: "st = \<lparr>board = b, isGameOver = False, isGameWon = False, flagsLeft = INITIAL_FLAGS\<rparr>"
    by (auto simp add: handleReset_def split: sum.splits)
  from createEmptyBoard_spec(1)[OF c] createEmptyBoard_distinct[OF c]
  show ?case by (simp add: endInv_def st)
next
  case (render s st ds ds' s' b)
  from reachable_gameInv[OF render.hyps(1)] have al: "allocated s (board st)"
    by (simp add: gameInv_def)
  have "allRevealed s' (board st)" if "allRevealed s (board st)"
    using al that createEmptyBoard_spec(4)[OF render.hyps(2)] by (rule allRevealed_frame)
  with render.IH show ?case by (auto simp add: endInv_def)
next
  case (click s st row col a ds ds' s' st')
  show ?case
  proof (cases "isGameOver st \<or> isGameWon st")
    case True
    with click.hyps(3) have "s' = s" "st' = st" by (auto simp add: handleTileClick_def)
    with click.IH show ?thesis by simp
  next
    case False
    then have ip: "\<not> isGameOver st" "\<not> isGameWon st" by simp_all
    with click.IH have sh: "square (board st)" "distinctCells (board st)"
      by (simp_all add: endInv_def)
    show ?thesis
    proof (rule handleTileClick_cases[OF ip click.hyps(3)])
      fix s1 st1 s2 a
      assume h: "isGameOver st1 = isGameOver st" "isGameWon st1 = isGameWon st"
        and lose: "isMine (tiles s2 a) \<Longrightarrow>
         s' = fst (revealBoard s2 (board st))
         \<and> st' = st1\<lparr>isGameOver := True, board := snd (revealBoard s2 (board st))\<rparr>"
        and win: "\<not> isMine (tiles s2 a) \<Longrightarrow> checkWinCondition s2 (board st) \<Longrightarrow>
         s' = fst (revealBoard s2 (board st))
         \<and> st' = st1\<lparr>isGameWon := True, board := snd (revealBoard s2 (board st))\<rparr>"
        and go: "\<not> isMine (tiles s2 a) \<Longrightarrow> \<not> checkWinCondition s2 (board st) \<Longrightarrow>
         s' = s2 \<and> st' = st1\<lparr>board := board st\<rparr>"
      have shown: "allRevealed (fst (revealBoard s2 (board st))) (snd (revealBoard s2 (board st)))"
        unfolding allRevealed_def by (rule revealBoard_all_revealed) simp
      show "endInv s' st'"
      proof (cases "isMine (tiles s2 a)")
        case True
        from lose[OF True] have "board st' = snd (revealBoard s2 (board st))" "isGameOver st'"
          "s' = fst (revealBoard s2 (board st))" by simp_all
        with shown show ?thesis by (simp add: endInv_def)
      next
        case nm: False
        show ?thesis
        proof (cases "checkWinCondition s2 (board st)")
          case True
          from win[OF nm True] have "board st' = snd (revealBoard s2 (board st))" "isGameWon st'"
            "s' = fst (revealBoard s2 (board st))" by simp_all
          with shown show ?thesis by (simp add: endInv_def)
        next
          case False
          from go[OF nm False] have "board st' = board st" "isGameOver st' = isGameOver st1"
            "isGameWon st' = isGameWon st1" by simp_all
          with h ip sh show ?thesis by (simp add: endInv_def)
        qed
      qed
    qed
  qed
next
  case (flag s st row col a s' st')
  show ?case
  proof (cases "isGameOver st \<or> isGameWon st")
    case True
    with flag.hyps(3) have "s' = s" "st' = st" by (auto simp add: handleTileRightClick_def)
    with flag.IH show ?thesis by simp
  next
    case False
    with flag.hyps(2,3) have b: "board st' = board st" "isGameOver st' = isGameOver st"
      "isGameWon st' = isGameWon st"
      by (auto simp add: handleTileRightClick_def Let_def split: if_splits)
    with flag.IH False show ?thesis by (simp add: endInv_def)
  qed
qed

lemma minesZero_same:
  assumes "minesZero s b"
    and "\<forall>a \<in> set (concat b). isMine (tiles s' a) = isMine (tiles s a)
            \<and> adjacentMines (tiles s' a) = adjacentMines (tiles s a)"
  shows "minesZero s' b"
  using assms unfolding minesZero_def list_all_iff by simp

lemma reachable_minesZero:
  "reachable s st \<Longrightarrow> \<not> isGameOver st \<and> \<not> isGameWon st \<longrightarrow> minesZero s (board st)"
proof (induction rule: reachable.induct)
  case (start ds s0 ds' s st)
  from start obtain b where c: "createEmptyBoard ds s0 = Inr (ds', s, b)"
    and st: "st = \<lparr>board = b, isGameOver = False, isGameWon = False, flagsLeft = INITIAL_FLAGS\<rparr>"
    by (auto simp add: handleReset_def split: sum.splits)
  note f = createEmptyBoard_spec[OF c]
  have "isMine (tiles s a) \<longrightarrow> adjacentMines (tiles s a) = 0" if "a \<in> set (concat b)" for a
  proof -
    from square_concat_cell[OF f(1) that] obtain r c' where
      rc: "r < BOARD_SIZE" "c' < BOARD_SIZE" "a = b ! r ! c'" by blast
    with f(7) have "adjacentMines (cell s b r c')
          = (if isMine (cell s b r c') then 0 else mineNeighbours s b r c')" by blast
    then show ?thesis by (simp add: cell_def rc(3))
  qed
  then show ?case by (simp add: minesZero_def list_all_iff st)
next
  case (render s st ds ds' s' b)
  from reachable_gameInv[OF render.hyps(1)]
  have al: "\<forall>a \<in> set (concat (board st)). a < nextRef s"
    by (simp add: gameInv_def allocated_def list_all_iff)
  with createEmptyBoard_spec(4)[OF render.hyps(2)]
  have same: "\<forall>a \<in> set (concat (board st)). tiles s' a = tiles s a" by blast
  show ?case
  proof
    assume "\<not> isGameOver st \<and> \<not> isGameWon st"
    with render.IH have "minesZero s (board st)" by simp
    then show "minesZero s' (board st)" by (rule minesZero_same) (simp add: same)
  qed
next
  case (click s st row col a ds ds' s' st')
  show ?case
  proof (cases "isGameOver st \<or> isGameWon st")
    case True
    with click.hyps(3) have "s' = s" "st' = st" by (auto simp add: handleTileClick_def)
    with click.IH show ?thesis by simp
  next
    case False
    then have ip: "\<not> isGameOver st" "\<not> isGameWon st" by simp_all
    with click.IH have mz: "minesZero s (board st)" by simp
    from reachable_gameInv[OF click.hyps(1)]
    have al: "\<forall>a \<in> set (concat (board st)). a < nextRef s"
      by (simp add: gameInv_def allocated_def list_all_iff)
    show ?thesis
    proof (rule handleTileClick_cases[OF ip click.hyps(3)])
      fix s1 st1 s2 a
      assume h: "\<forall>x < nextRef s. tiles s1 x = tiles s x" "onlyReveals s1 s2"
        and lose: "isMine (tiles s2 a) \<Longrightarrow>
         s' = fst (revealBoard s2 (board st))
         \<and> st' = st1\<lparr>isGameOver := True, board := snd (revealBoard s2 (board st))\<rparr>"
        and win: "\<not> isMine (tiles s2 a) \<Longrightarrow> checkWinCondition s2 (board st) \<Longrightarrow>
         s' = fst (revealBoard s2 (board st))
         \<and> st' = st1\<lparr>isGameWon := True, board := snd (revealBoard s2 (board st))\<rparr>"
        and go: "\<not> isMine (tiles s2 a) \<Longrightarrow> \<not> checkWinCondition s2 (board st) \<Longrightarrow>
         s' = s2 \<and> st' = st1\<lparr>board := board st\<rparr>"
      from al h(1) have same: "\<forall>a \<in> set (concat (board st)). tiles s1 a = tiles s a" by blast
      have "minesZero s1 (board st)" using mz by (rule minesZero_same) (simp add: same)
      then have mz2: "minesZero s2 (board st)"
        by (rule minesZero_same) (simp add: onlyReveals_fields(1,3)[OF h(2)])
      show "\<not> isGameOver st' \<and> \<not> isGameWon st' \<longrightarrow> minesZero s' (board st')"
      proof (cases "isMine (tiles s2 a)")
        case True
        from lose[OF True] show ?thesis by simp
      next
        case nm: False
        show ?thesis
        proof (cases "checkWinCondition s2 (board st)")
          case True
          from win[OF nm True] show ?thesis by simp
        next
          case False
          from go[OF nm False] mz2 show ?thesis by simp
        qed
      qed
    qed
  qed
next
  case (flag s st row col a s' st')
  show ?case
  proof (cases "isGameOver st \<or> isGameWon st")
    case True
    with flag.hyps(3) have "s' = s" "st' = st" by (auto simp add: handleTileRightClick_def)
    with flag.IH show ?thesis by simp
  next
    case False
    with flag.IH have mz: "minesZero s (board st)" by simp
    from flag.hyps(2,3) False have b: "board st' = board st"
      by (auto simp add: handleTileRightClick_def Let_def split: if_splits)
    from flag.hyps(2,3) False have fl:
      "\<forall>x. isMine (tiles s' x) = isMine (tiles s x)
          \<and> adjacentMines (tiles s' x) = adjacentMines (tiles s x)"
      by (auto simp add: handleTileRightClick_def Let_def writeTile_def split: if_splits)
    from mz have "minesZero s' (board st)" by (rule minesZero_same) (simp add: fl)
    then show ?thesis by (simp add: b)
  qed
qed

section \<open>Properties of the engine and the controller\<close>

subsection \<open>The guard of revealTile\<close>

text \<open>
  Claim C9. \<open>revealTile\<close> is a no-op at its guard: for every board and every coordinate
  inside it whose tile is already revealed or is flagged, the call returns a board equal
  to its input and writes to no tile object.
\<close>

theorem revealTile_noop:
  assumes "tileAt b row col = Some a"
    and "isRevealed (tiles s a) \<or> isFlagged (tiles s a)"
  shows "revealTile s b row col = Inr (s, b)"
  using assms by (simp add: revealTile.simps)

theorem revealTile_noop_witness:
  "tileAt gridBoard 0 0 = Some 0
   \<and> (isRevealed (tiles flaggedMineStore 0) \<or> isFlagged (tiles flaggedMineStore 0))
   \<and> revealTile flaggedMineStore gridBoard 0 0 = Inr (flaggedMineStore, gridBoard)"
proof -
  have h1: "tileAt gridBoard 0 0 = Some 0"
    by (simp add: tileAt_def gridBoard_def)
  have h2: "isRevealed (tiles flaggedMineStore 0) \<or> isFlagged (tiles flaggedMineStore 0)"
    by (simp add: flaggedMineStore_def writeTile_def)
  from h1 h2 revealTile_noop[OF h1 h2] show ?thesis by simp
qed

subsection \<open>Clicking a flagged mine\<close>

text \<open>
  Claim C10. In a game in progress, a left click on a tile that is flagged and is a mine
  loses the game and installs the force-revealed board (same shape, every tile revealed),
  although \<open>revealTile\<close> itself changes nothing at a flagged tile: the loss check reads
  \<open>isMine\<close> of the clicked cell whether or not the reveal took effect.
\<close>

theorem flagged_mine_click_loses:
  assumes "\<not> isGameOver st" and "\<not> isGameWon st"
    and "tileAt (board st) row col = Some a"
    and "isMine (tiles s a)" and "isFlagged (tiles s a)"
  shows "\<exists>s' shown.
           handleTileClick ds s st row col
             = Inr (ds, s', st\<lparr>isGameOver := True, board := shown\<rparr>)
           \<and> revealBoard s (board st) = (s', shown)
           \<and> map length shown = map length (board st)
           \<and> list_all (\<lambda>x. isRevealed (tiles s' x)) (concat shown)
           \<and> revealTile s (board st) row col = Inr (s, board st)"
proof -
  obtain s' shown where rb: "revealBoard s (board st) = (s', shown)" by fastforce
  have "handleTileClick ds s st row col = Inr (ds, s', st\<lparr>isGameOver := True, board := shown\<rparr>)"
    using click_flagged_mine[OF assms, of ds] rb by simp
  moreover have "revealTile s (board st) row col = Inr (s, board st)"
    using assms(3,5) by (simp add: revealTile.simps)
  ultimately show ?thesis
    using rb revealBoard_shape[OF rb] revealBoard_all_revealed[OF rb] by blast
qed

theorem flagged_mine_click_loses_witness:
  "\<not> isGameOver flaggedMineGame \<and> \<not> isGameWon flaggedMineGame
   \<and> tileAt (board flaggedMineGame) 0 0 = Some 0
   \<and> isMine (tiles flaggedMineStore 0) \<and> isFlagged (tiles flaggedMineStore 0)
   \<and> (\<exists>s' shown.
         handleTileClick [] flaggedMineStore flaggedMineGame 0 0
           = Inr ([], s', flaggedMineGame\<lparr>isGameOver := True, board := shown\<rparr>)
         \<and> revealBoard flaggedMineStore (board flaggedMineGame) = (s', shown)
         \<and> map length shown = map length (board flaggedMineGame)
         \<and> list_all (\<lambda>x. isRevealed (tiles s' x)) (concat shown)
         \<and> revealTile flaggedMineStore (board flaggedMineGame) 0 0
             = Inr (flaggedMineStore, board flaggedMineGame))"
proof -
  have h1: "\<not> isGameOver flaggedMineGame" and h2: "\<not> isGameWon flaggedMineGame"
    by (simp_all add: flaggedMineGame_def)
  have h3: "tileAt (board flaggedMineGame) 0 0 = Some 0"
    by (simp add: flaggedMineGame_def tileAt_def gridBoard_def)
  have h4: "isMine (tiles flaggedMineStore 0)" and h5: "isFlagged (tiles flaggedMineStore 0)"
    by (simp_all add: flaggedMineStore_def writeTile_def cornerMineStore_def cornerMineTiles_def)
  from flagged_mine_click_loses[OF h1 h2 h3 h4 h5, of "[]"] h1 h2 h3 h4 h5
  show ?thesis by blast
qed

subsection \<open>The flood fill\<close>

text \<open>
  Claim C6. On every board of \<open>BOARD_SIZE\<close> by \<open>BOARD_SIZE\<close> cells and at every coordinate
  inside it, \<open>revealTile\<close> returns (it is a total function: its recursion is well-founded
  on every board, whatever the adjacency counts) and throws no error; a tile that was
  flagged is left as it was, so is a tile that was already revealed, and any other tile
  is left as it was or has only \<open>isRevealed\<close> set.
\<close>

theorem revealTile_flood_fill:
  assumes "square b"
    and "0 \<le> row" and "row < int BOARD_SIZE" and "0 \<le> col" and "col < int BOARD_SIZE"
  shows "\<exists>s'. revealTile s b row col = Inr (s', b)
           \<and> (\<forall>x. isFlagged (tiles s x) \<longrightarrow> tiles s' x = tiles s x)
           \<and> (\<forall>x. isRevealed (tiles s x) \<longrightarrow> tiles s' x = tiles s x)
           \<and> onlyReveals s s'"
proof -
  from reveal_returns(1)[of b row col s] assms
  obtain s' where r: "revealTile s b row col = Inr (s', b)" by blast
  with reveal_onlyReveals(1)[of s b row col] have o: "onlyReveals s s'" by blast
  then have "\<forall>x. isFlagged (tiles s x) \<longrightarrow> tiles s' x = tiles s x"
    and "\<forall>x. isRevealed (tiles s x) \<longrightarrow> tiles s' x = tiles s x"
    unfolding onlyReveals_def by metis+
  with r o show ?thesis by blast
qed

text \<open>Two instances: a fill over the board that is entirely zero-adjacency, and a fill on
  the board whose corner mine is flagged.\<close>

theorem revealTile_flood_fill_witness:
  "square gridBoard \<and> (0::int) \<le> 5 \<and> (5::int) < int BOARD_SIZE
   \<and> (\<exists>s'. revealTile blankStore gridBoard 5 5 = Inr (s', gridBoard)
            \<and> onlyReveals blankStore s')
   \<and> isFlagged (tiles flaggedMineStore 0)
   \<and> (\<exists>s'. revealTile flaggedMineStore gridBoard 5 5 = Inr (s', gridBoard)
            \<and> tiles s' 0 = tiles flaggedMineStore 0)"
proof -
  have h: "(0::int) \<le> 5" "(5::int) < int BOARD_SIZE"
    by (simp_all add: BOARD_SIZE_def)
  have f: "isFlagged (tiles flaggedMineStore 0)"
    by (simp add: flaggedMineStore_def)
  from revealTile_flood_fill[OF square_gridBoard h h, of blankStore]
  have a: "\<exists>s'. revealTile blankStore gridBoard 5 5 = Inr (s', gridBoard)
            \<and> onlyReveals blankStore s'" by blast
  from revealTile_flood_fill[OF square_gridBoard h h, of flaggedMineStore] f
  have b: "\<exists>s'. revealTile flaggedMineStore gridBoard 5 5 = Inr (s', gridBoard)
            \<and> tiles s' 0 = tiles flaggedMineStore 0" by blast
  from square_gridBoard h f a b show ?thesis by blast
qed

subsection \<open>Revealing a mine\<close>

text \<open>
  Claim C4, as the code has it. \<open>revealTile\<close> tests \<open>adjacentMines\<close> only, never
  \<open>isMine\<close>, so it expands from every tile whose \<open>adjacentMines\<close> is 0, mine or not. On a
  board of \<open>BOARD_SIZE\<close> by \<open>BOARD_SIZE\<close> distinct tile objects and for a target inside it
  that is neither revealed nor flagged, the call returns, the target is revealed, and the
  cells it reveals are exactly those of \<open>fill\<close>: the target, and every neighbour, neither
  revealed nor flagged, of a reached cell whose \<open>adjacentMines\<close> is 0. So a target whose
  \<open>adjacentMines\<close> is not 0 is the one tile written and no neighbour is visited; and a
  target whose \<open>adjacentMines\<close> is 0, which is what every mine has on a board of
  \<open>createEmptyBoard\<close> and throughout a game in progress, has every unflagged neighbour
  inside the board revealed with it.
\<close>

theorem revealTile_expands:
  assumes "square b" and "distinctCells b" and "inBoard row col"
    and "\<not> isRevealed (tiles s (tileOf b row col))"
    and "\<not> isFlagged (tiles s (tileOf b row col))"
  shows "\<exists>s'. revealTile s b row col = Inr (s', b)
    \<and> onlyReveals s s'
    \<and> isRevealed (tiles s' (tileOf b row col))
    \<and> (\<forall>r c. inBoard r c \<longrightarrow> newlyRevealed s s' (tileOf b r c) = fill s b row col r c)
    \<and> (adjacentMines (tiles s (tileOf b row col)) \<noteq> 0 \<longrightarrow>
         s' = writeTile s (tileOf b row col) ((tiles s (tileOf b row col))\<lparr>isRevealed := True\<rparr>))
    \<and> (adjacentMines (tiles s (tileOf b row col)) = 0 \<longrightarrow>
         (\<forall>(i, j) \<in> set offsets.
            inBoard (row + i) (col + j) \<and> \<not> isFlagged (tiles s (tileOf b (row + i) (col + j)))
            \<longrightarrow> isRevealed (tiles s' (tileOf b (row + i) (col + j)))))"
proof -
  let ?a = "tileOf b row col"
  from revealTile_fills[OF assms(1,2,3), of s] obtain s' where
    r: "revealTile s b row col = Inr (s', b)" and o: "onlyReveals s s'"
    and p2: "settled s' ?a" and p3: "fillClosed s s' b"
    and e: "\<forall>r c. inBoard r c \<longrightarrow> newlyRevealed s s' (tileOf b r c) = fill s b row col r c"
    by blast
  have t: "tileAt b row col = Some ?a"
    using square_tileAt[of b row col] assms(1,3) by (simp add: tileOf_def inBoard_def)
  from assms(5) onlyReveals_fields(2)[OF o] have "\<not> isFlagged (tiles s' ?a)" by simp
  with p2 have rv: "isRevealed (tiles s' ?a)" by (simp add: settled_def)
  have nz: "adjacentMines (tiles s ?a) \<noteq> 0 \<longrightarrow>
         s' = writeTile s ?a ((tiles s ?a)\<lparr>isRevealed := True\<rparr>)"
  proof
    assume "adjacentMines (tiles s ?a) \<noteq> 0"
    with t assms(4,5) have "revealTile s b row col
        = Inr (writeTile s ?a ((tiles s ?a)\<lparr>isRevealed := True\<rparr>), b)"
      by (simp add: revealTile.simps Let_def)
    with r show "s' = writeTile s ?a ((tiles s ?a)\<lparr>isRevealed := True\<rparr>)" by simp
  qed
  have z: "adjacentMines (tiles s ?a) = 0 \<longrightarrow>
         (\<forall>(i, j) \<in> set offsets.
            inBoard (row + i) (col + j) \<and> \<not> isFlagged (tiles s (tileOf b (row + i) (col + j)))
            \<longrightarrow> isRevealed (tiles s' (tileOf b (row + i) (col + j))))"
  proof (intro impI ballI)
    fix p
    assume z0: "adjacentMines (tiles s ?a) = 0" and pm: "p \<in> set offsets"
    obtain i j where p: "p = (i, j)" by (cases p)
    have "inBoard (row + i) (col + j) \<and> \<not> isFlagged (tiles s (tileOf b (row + i) (col + j)))
            \<longrightarrow> isRevealed (tiles s' (tileOf b (row + i) (col + j)))"
    proof
      assume h: "inBoard (row + i) (col + j)
          \<and> \<not> isFlagged (tiles s (tileOf b (row + i) (col + j)))"
      have nw: "newlyRevealed s s' ?a" using assms(4) rv by (simp add: newlyRevealed_def)
      from z0 onlyReveals_fields(1)[OF o] have "adjacentMines (tiles s' ?a) = 0" by simp
      with p3 assms(3) nw have "\<forall>(i, j) \<in> set offsets. inBoard (row + i) (col + j) \<longrightarrow>
           settled s' (tileOf b (row + i) (col + j))"
        unfolding fillClosed_def by blast
      with pm p h have "settled s' (tileOf b (row + i) (col + j))" by blast
      moreover from h onlyReveals_fields(2)[OF o]
      have "\<not> isFlagged (tiles s' (tileOf b (row + i) (col + j)))" by simp
      ultimately show "isRevealed (tiles s' (tileOf b (row + i) (col + j)))"
        by (simp add: settled_def)
    qed
    then show "case p of (i, j) \<Rightarrow>
        inBoard (row + i) (col + j) \<and> \<not> isFlagged (tiles s (tileOf b (row + i) (col + j)))
            \<longrightarrow> isRevealed (tiles s' (tileOf b (row + i) (col + j)))"
      by (simp add: p)
  qed
  show ?thesis
  proof (intro exI conjI)
  qed (fact r o rv e nz z)+
qed

theorem revealTile_expands_witness:
  "square gridBoard \<and> distinctCells gridBoard \<and> inBoard 0 0
   \<and> isMine (tiles cornerMineStore (tileOf gridBoard 0 0))
   \<and> adjacentMines (tiles cornerMineStore (tileOf gridBoard 0 0)) = 0
   \<and> \<not> isRevealed (tiles cornerMineStore (tileOf gridBoard 0 0))
   \<and> \<not> isFlagged (tiles cornerMineStore (tileOf gridBoard 0 0))
   \<and> \<not> isRevealed (tiles cornerMineStore (tileOf gridBoard 0 1))
   \<and> (\<exists>s'. revealTile cornerMineStore gridBoard 0 0 = Inr (s', gridBoard)
          \<and> isRevealed (tiles s' (tileOf gridBoard 0 0))
          \<and> isRevealed (tiles s' (tileOf gridBoard 0 1))
          \<and> fill cornerMineStore gridBoard 0 0 0 1)
   \<and> inBoard 0 1
   \<and> adjacentMines (tiles cornerMineStore (tileOf gridBoard 0 1)) = 1
   \<and> (\<exists>s'. revealTile cornerMineStore gridBoard 0 1 = Inr (s', gridBoard)
          \<and> s' = writeTile cornerMineStore 1 ((tiles cornerMineStore 1)\<lparr>isRevealed := True\<rparr>))"
proof -
  have i0: "inBoard 0 0" and i1: "inBoard 0 1" by (simp_all add: inBoard_def BOARD_SIZE_def)
  have t0: "tileOf gridBoard 0 0 = 0" and t1: "tileOf gridBoard 0 1 = 1"
    by (simp_all add: tileOf_def gridBoard_def)
  have m: "isMine (tiles cornerMineStore 0)" "adjacentMines (tiles cornerMineStore 0) = 0"
    "\<not> isRevealed (tiles cornerMineStore 0)" "\<not> isFlagged (tiles cornerMineStore 0)"
    by (simp_all add: cornerMineStore_def cornerMineTiles_def blankTile_def)
  have n: "adjacentMines (tiles cornerMineStore 1) = 1"
    "\<not> isRevealed (tiles cornerMineStore 1)" "\<not> isFlagged (tiles cornerMineStore 1)"
    by (simp_all add: cornerMineStore_def cornerMineTiles_def blankTile_def)
  have off: "(0, 1) \<in> set offsets" by (simp add: offsets_def)
  have u0: "\<not> isRevealed (tiles cornerMineStore (tileOf gridBoard 0 0))"
    "\<not> isFlagged (tiles cornerMineStore (tileOf gridBoard 0 0))"
    using m(3,4) by (simp_all add: t0)
  have u1: "\<not> isRevealed (tiles cornerMineStore (tileOf gridBoard 0 1))"
    "\<not> isFlagged (tiles cornerMineStore (tileOf gridBoard 0 1))"
    using n(2,3) by (simp_all add: t1)
  from revealTile_expands[OF square_gridBoard distinctCells_gridBoard i0 u0]
  obtain s' where r: "revealTile cornerMineStore gridBoard 0 0 = Inr (s', gridBoard)"
    and rv: "isRevealed (tiles s' (tileOf gridBoard 0 0))"
    and e: "\<forall>r c. inBoard r c \<longrightarrow>
          newlyRevealed cornerMineStore s' (tileOf gridBoard r c)
            = fill cornerMineStore gridBoard 0 0 r c"
    and z: "adjacentMines (tiles cornerMineStore (tileOf gridBoard 0 0)) = 0 \<longrightarrow>
         (\<forall>(i, j) \<in> set offsets.
            inBoard (0 + i) (0 + j)
            \<and> \<not> isFlagged (tiles cornerMineStore (tileOf gridBoard (0 + i) (0 + j)))
            \<longrightarrow> isRevealed (tiles s' (tileOf gridBoard (0 + i) (0 + j))))"
    apply (elim exE conjE)
    apply (rule that)
       apply assumption+
    done
  from z m(2) have "\<forall>(i, j) \<in> set offsets.
            inBoard (0 + i) (0 + j)
            \<and> \<not> isFlagged (tiles cornerMineStore (tileOf gridBoard (0 + i) (0 + j)))
            \<longrightarrow> isRevealed (tiles s' (tileOf gridBoard (0 + i) (0 + j)))"
    by (simp add: t0)
  from bspec[OF this off] have "inBoard (0 + 0) (0 + 1)
            \<and> \<not> isFlagged (tiles cornerMineStore (tileOf gridBoard (0 + 0) (0 + 1)))
            \<longrightarrow> isRevealed (tiles s' (tileOf gridBoard (0 + 0) (0 + 1)))"
    by simp
  with i1 n(3) have rv1: "isRevealed (tiles s' (tileOf gridBoard 0 1))" by (simp add: t1)
  with n(2) have "newlyRevealed cornerMineStore s' (tileOf gridBoard 0 1)"
    by (simp add: newlyRevealed_def t1)
  with e i1 have fl: "fill cornerMineStore gridBoard 0 0 0 1" by blast
  have a: "\<exists>s'. revealTile cornerMineStore gridBoard 0 0 = Inr (s', gridBoard)
          \<and> isRevealed (tiles s' (tileOf gridBoard 0 0))
          \<and> isRevealed (tiles s' (tileOf gridBoard 0 1))
          \<and> fill cornerMineStore gridBoard 0 0 0 1"
    using r rv rv1 fl by blast
  from revealTile_expands[OF square_gridBoard distinctCells_gridBoard i1 u1]
  obtain s2 where r2: "revealTile cornerMineStore gridBoard 0 1 = Inr (s2, gridBoard)"
    and nz: "adjacentMines (tiles cornerMineStore (tileOf gridBoard 0 1)) \<noteq> 0 \<longrightarrow>
         s2 = writeTile cornerMineStore (tileOf gridBoard 0 1)
                ((tiles cornerMineStore (tileOf gridBoard 0 1))\<lparr>isRevealed := True\<rparr>)"
    apply (elim exE conjE)
    apply (rule that)
     apply assumption+
    done
  from nz n(1) have "s2 = writeTile cornerMineStore 1
                ((tiles cornerMineStore 1)\<lparr>isRevealed := True\<rparr>)"
    by (simp add: t1)
  with r2 have b: "\<exists>s'. revealTile cornerMineStore gridBoard 0 1 = Inr (s', gridBoard)
          \<and> s' = writeTile cornerMineStore 1 ((tiles cornerMineStore 1)\<lparr>isRevealed := True\<rparr>)"
    by simp
  from square_gridBoard distinctCells_gridBoard i0 i1 m n a b show ?thesis
    unfolding t0 t1 by simp
qed

text \<open>A mine keeps the \<open>adjacentMines = 0\<close> it was created with, so revealing the corner
  mine also reveals its three neighbours.\<close>

theorem revealTile_mine_expands:
  "tileAt gridBoard 0 0 = Some 0
   \<and> isMine (tiles cornerMineStore 0)
   \<and> \<not> isRevealed (tiles cornerMineStore 0) \<and> \<not> isFlagged (tiles cornerMineStore 0)
   \<and> \<not> isRevealed (tiles cornerMineStore 1)
   \<and> revealTile cornerMineStore gridBoard 0 0 =
        Inr (writeTile (writeTile (writeTile (writeTile cornerMineStore
               0 (blankTile\<lparr>isMine := True, isRevealed := True\<rparr>))
               1 (blankTile\<lparr>adjacentMines := 1, isRevealed := True\<rparr>))
               10 (blankTile\<lparr>adjacentMines := 1, isRevealed := True\<rparr>))
               11 (blankTile\<lparr>adjacentMines := 1, isRevealed := True\<rparr>), gridBoard)"
  by (simp add: revealTile.simps offsets_def tileAt_def gridBoard_def cornerMineStore_def
        cornerMineTiles_def blankTile_def BOARD_SIZE_def Let_def)

subsection \<open>Toggling a flag\<close>

text \<open>
  Claim C5, as the code has it. In a game in progress and at a coordinate inside the board,
  a right click does nothing to a revealed tile; it clears the flag of a flagged tile and
  gives the flag back to the budget; it flags an unflagged tile only while
  \<open>flagsLeft > 0\<close>, and with \<open>flagsLeft = 0\<close> the tile stays unflagged.
\<close>

theorem handleTileRightClick_toggle:
  assumes "\<not> isGameOver st" and "\<not> isGameWon st"
    and "tileAt (board st) row col = Some a"
  shows "handleTileRightClick s st row col =
           (if isRevealed (tiles s a) then Inr (s, st)
            else if isFlagged (tiles s a) then
              Inr (writeTile s a ((tiles s a)\<lparr>isFlagged := False\<rparr>),
                   st\<lparr>flagsLeft := flagsLeft st + 1\<rparr>)
            else if 0 < flagsLeft st then
              Inr (writeTile s a ((tiles s a)\<lparr>isFlagged := True\<rparr>),
                   st\<lparr>flagsLeft := flagsLeft st - 1\<rparr>)
            else Inr (s, st))"
  using assms by (simp add: handleTileRightClick_def Let_def)

theorem handleTileRightClick_toggle_witness:
  "\<not> isGameOver flaggedMineGame \<and> \<not> isGameWon flaggedMineGame
   \<and> tileAt (board flaggedMineGame) 5 5 = Some 55
   \<and> handleTileRightClick flaggedMineStore flaggedMineGame 5 5 =
        Inr (writeTile flaggedMineStore 55 (blankTile\<lparr>isFlagged := True\<rparr>),
             flaggedMineGame\<lparr>flagsLeft := 8\<rparr>)"
proof -
  have h1: "\<not> isGameOver flaggedMineGame" and h2: "\<not> isGameWon flaggedMineGame"
    by (simp_all add: flaggedMineGame_def)
  have h3: "tileAt (board flaggedMineGame) 5 5 = Some 55"
    by (simp add: flaggedMineGame_def tileAt_def gridBoard_def)
  have t: "tiles flaggedMineStore 55 = blankTile"
    by (simp add: flaggedMineStore_def cornerMineStore_def cornerMineTiles_def)
  have f: "flagsLeft flaggedMineGame = 9"
    by (simp add: flaggedMineGame_def)
  from handleTileRightClick_toggle[OF h1 h2 h3, of flaggedMineStore] h1 h2 h3
  show ?thesis by (simp add: t f blankTile_def)
qed

text \<open>With the ten flags of the budget placed, a right click on an unrevealed, unflagged
  tile changes nothing.\<close>

theorem handleTileRightClick_budget:
  "\<not> isGameOver tenFlagsGame \<and> \<not> isGameWon tenFlagsGame
   \<and> tileAt (board tenFlagsGame) 5 5 = Some 55
   \<and> \<not> isRevealed (tiles tenFlagsStore 55) \<and> \<not> isFlagged (tiles tenFlagsStore 55)
   \<and> handleTileRightClick tenFlagsStore tenFlagsGame 5 5 = Inr (tenFlagsStore, tenFlagsGame)"
  by (simp add: handleTileRightClick_def Let_def tenFlagsGame_def tenFlagsStore_def
        tileAt_def gridBoard_def cornerMineTiles_def blankTile_def)

subsection \<open>The win condition\<close>

text \<open>
  Claim C7. \<open>checkWinCondition\<close> holds exactly when the number of cells that are revealed
  and hold no mine equals \<open>BOARD_SIZE * BOARD_SIZE - NUM_MINES\<close>, that is 100 - 15; setting
  the \<open>isFlagged\<close> fields of the tiles to anything else does not change the result.
\<close>

theorem checkWinCondition_count:
  "(checkWinCondition s b
      \<longleftrightarrow> card (revealedSafeCells s b) = BOARD_SIZE * BOARD_SIZE - NUM_MINES)
   \<and> BOARD_SIZE * BOARD_SIZE - NUM_MINES = 100 - 15
   \<and> checkWinCondition (s\<lparr>tiles := \<lambda>a. (tiles s a)\<lparr>isFlagged := flags a\<rparr>\<rparr>) b
       = checkWinCondition s b"
proof (intro conjI)
  show "checkWinCondition s b
          \<longleftrightarrow> card (revealedSafeCells s b) = BOARD_SIZE * BOARD_SIZE - NUM_MINES"
    by (rule checkWin_count)
  show "BOARD_SIZE * BOARD_SIZE - NUM_MINES = 100 - 15"
    by (simp add: BOARD_SIZE_def NUM_MINES_def)
  show "checkWinCondition (s\<lparr>tiles := \<lambda>a. (tiles s a)\<lparr>isFlagged := flags a\<rparr>\<rparr>) b
          = checkWinCondition s b"
    by (simp add: checkWinCondition_def)
qed

subsection \<open>Adjacency counts\<close>

text \<open>
  Claim C8. On every board of \<open>BOARD_SIZE\<close> by \<open>BOARD_SIZE\<close> cells (all of whose tile
  objects exist in the store, as they always do in JavaScript) \<open>calculateAdjacentMines\<close>
  returns a board of the same size with the same mines on which every tile that is not a
  mine has as \<open>adjacentMines\<close> the exact number of mines among its neighbours inside the
  board.
\<close>

theorem calculateAdjacentMines_counts:
  assumes "square b" and "allocated s b"
  shows "\<exists>s' b'. calculateAdjacentMines s b = Inr (s', b') \<and> square b'
           \<and> (\<forall>r < BOARD_SIZE. \<forall>c < BOARD_SIZE.
                 isMine (cell s' b' r c) = isMine (cell s b r c)
                 \<and> (\<not> isMine (cell s' b' r c) \<longrightarrow>
                      adjacentMines (cell s' b' r c) = mineNeighbours s' b' r c))"
proof -
  from calculateAdjacentMines_spec[OF assms] obtain s' b' where
    h: "calculateAdjacentMines s b = Inr (s', b')" "square b'"
       "\<forall>r < BOARD_SIZE. \<forall>c < BOARD_SIZE.
                 cell s' b' r c =
                   (if isMine (cell s b r c) then cell s b r c
                    else (cell s b r c)\<lparr>adjacentMines := mineNeighbours s b r c\<rparr>)"
    by blast
  have mine: "isMine (cell s' b' r c) = isMine (cell s b r c)"
    if "r < BOARD_SIZE" "c < BOARD_SIZE" for r c
    using h(3) that by simp
  have mn: "mineNeighbours s' b' r c = mineNeighbours s b r c" for r c
    by (rule mineNeighbours_cong) (rule mine)
  have "\<forall>r < BOARD_SIZE. \<forall>c < BOARD_SIZE.
                 isMine (cell s' b' r c) = isMine (cell s b r c)
                 \<and> (\<not> isMine (cell s' b' r c) \<longrightarrow>
                      adjacentMines (cell s' b' r c) = mineNeighbours s' b' r c)"
    using h(3) by (simp add: mn)
  with h(1,2) show ?thesis by blast
qed

theorem calculateAdjacentMines_counts_witness:
  "square gridBoard \<and> allocated seededCornerStore gridBoard
   \<and> (\<exists>s' b'. calculateAdjacentMines seededCornerStore gridBoard = Inr (s', b')
         \<and> \<not> isMine (cell s' b' 0 1)
         \<and> adjacentMines (cell s' b' 0 1) = mineNeighbours s' b' 0 1
         \<and> mineNeighbours s' b' 0 1 = 1)"
proof -
  have al: "allocated seededCornerStore gridBoard"
    by (rule allocated_gridBoard) (simp add: seededCornerStore_def)
  from calculateAdjacentMines_counts[OF square_gridBoard al] obtain s' b' where
    h: "calculateAdjacentMines seededCornerStore gridBoard = Inr (s', b')"
       "\<forall>r < BOARD_SIZE. \<forall>c < BOARD_SIZE.
                 isMine (cell s' b' r c) = isMine (cell seededCornerStore gridBoard r c)
                 \<and> (\<not> isMine (cell s' b' r c) \<longrightarrow>
                      adjacentMines (cell s' b' r c) = mineNeighbours s' b' r c)"
    by blast
  have nm: "\<not> isMine (cell seededCornerStore gridBoard 0 1)"
    by (simp add: cell_def seededCornerStore_def gridBoard_def blankTile_def)
  have b01: "(0::nat) < BOARD_SIZE" "(1::nat) < BOARD_SIZE" by (simp_all add: BOARD_SIZE_def)
  from h(2) b01 nm have a: "\<not> isMine (cell s' b' 0 1)"
    "adjacentMines (cell s' b' 0 1) = mineNeighbours s' b' 0 1" by auto
  have "mineNeighbours s' b' 0 1 = mineNeighbours seededCornerStore gridBoard 0 1"
    by (rule mineNeighbours_cong) (use h(2) in simp)
  also have "\<dots> = 1"
    unfolding mineNeighbours_def card_neighbours
    by (simp add: offsets_def mineAt_def cell_def seededCornerStore_def gridBoard_def
          blankTile_def BOARD_SIZE_def)
  finally have "mineNeighbours s' b' 0 1 = 1" .
  with square_gridBoard al h(1) a show ?thesis by blast
qed

subsection \<open>The board of a new game\<close>

text \<open>
  Claim C1, as the code has it. The loop of \<open>createEmptyBoard\<close> draws cells at random until
  \<open>NUM_MINES\<close> different cells have been hit, so it returns as soon as the draws, each
  within the board, name that many different cells. The board it returns has \<open>BOARD_SIZE\<close>
  by \<open>BOARD_SIZE\<close> cells, no tile is revealed or flagged, and exactly \<open>NUM_MINES\<close>
  cells are mines; \<open>calculateAdjacentMines\<close> has run on it, so that \<open>adjacentMines\<close>
  is the number of neighbouring mines on a tile that is not a mine and 0 on a mine. This is
  the board \<open>handleReset\<close> installs, with both status flags cleared and the flag budget
  restored.
\<close>

theorem createEmptyBoard_board:
  assumes "list_all (\<lambda>(r, c). r < BOARD_SIZE \<and> c < BOARD_SIZE) ds"
    and "NUM_MINES \<le> card (set ds)"
  shows "\<exists>ds' s' b. createEmptyBoard ds s = Inr (ds', s', b)
    \<and> square b
    \<and> (\<forall>r < BOARD_SIZE. \<forall>c < BOARD_SIZE.
          \<not> isRevealed (cell s' b r c) \<and> \<not> isFlagged (cell s' b r c))
    \<and> card (mineCells s' b) = NUM_MINES
    \<and> (\<forall>r < BOARD_SIZE. \<forall>c < BOARD_SIZE.
          adjacentMines (cell s' b r c)
            = (if isMine (cell s' b r c) then 0 else mineNeighbours s' b r c))
    \<and> handleReset ds s
        = Inr (ds', s',
               \<lparr>board = b, isGameOver = False, isGameWon = False, flagsLeft = INITIAL_FLAGS\<rparr>)"
proof -
  from createEmptyBoard_returns[OF assms] obtain ds' s' b where
    r: "createEmptyBoard ds s = Inr (ds', s', b)" by blast
  note sp = createEmptyBoard_spec(1,5,6,7)[OF r]
  have h: "handleReset ds s
        = Inr (ds', s',
               \<lparr>board = b, isGameOver = False, isGameWon = False, flagsLeft = INITIAL_FLAGS\<rparr>)"
    using r by (simp add: handleReset_def)
  show ?thesis
  proof (intro exI conjI)
  qed (fact r sp h)+
qed

theorem createEmptyBoard_board_witness:
  "list_all (\<lambda>(r, c). r < BOARD_SIZE \<and> c < BOARD_SIZE) sampleDraws
   \<and> NUM_MINES \<le> card (set sampleDraws)
   \<and> createEmptyBoard sampleDraws emptyStore = Inr ([], freshStore, board freshGame)
   \<and> square (board freshGame)
   \<and> \<not> isRevealed (cell freshStore (board freshGame) 0 0)
   \<and> \<not> isFlagged (cell freshStore (board freshGame) 0 0)
   \<and> card (mineCells freshStore (board freshGame)) = NUM_MINES
   \<and> handleReset sampleDraws emptyStore
        = Inr ([], freshStore,
               \<lparr>board = board freshGame, isGameOver = False, isGameWon = False,
                  flagsLeft = INITIAL_FLAGS\<rparr>)"
proof -
  have h1: "list_all (\<lambda>(r, c). r < BOARD_SIZE \<and> c < BOARD_SIZE) sampleDraws"
    by (simp add: sampleDraws_def BOARD_SIZE_def)
  have h2: "NUM_MINES \<le> card (set sampleDraws)"
    by (simp add: sampleDraws_def NUM_MINES_def)
  have z: "(0::nat) < BOARD_SIZE" by (simp add: BOARD_SIZE_def)
  from createEmptyBoard_board[OF h1 h2, of emptyStore] obtain ds' s' b where
    r: "createEmptyBoard sampleDraws emptyStore = Inr (ds', s', b)"
    and sq: "square b"
    and hid: "\<forall>r < BOARD_SIZE. \<forall>c < BOARD_SIZE.
          \<not> isRevealed (cell s' b r c) \<and> \<not> isFlagged (cell s' b r c)"
    and cnt: "card (mineCells s' b) = NUM_MINES"
    and hr: "handleReset sampleDraws emptyStore
        = Inr (ds', s',
               \<lparr>board = b, isGameOver = False, isGameWon = False, flagsLeft = INITIAL_FLAGS\<rparr>)"
    by blast
  from r fresh_create have e: "ds' = []" "s' = freshStore" "b = board freshGame" by simp_all
  from hid z have "\<not> isRevealed (cell s' b 0 0)" "\<not> isFlagged (cell s' b 0 0)" by blast+
  with h1 h2 r sq cnt hr show ?thesis unfolding e by simp
qed

text \<open>With the sample draws the new board has a mine at \<open>(0, 0)\<close> and fifteen mines in
  all.\<close>

theorem createEmptyBoard_places_mines:
  "createEmptyBoard sampleDraws emptyStore = Inr ([], freshStore, board freshGame)
   \<and> isMine (cell freshStore (board freshGame) 0 0)
   \<and> card (mineCells freshStore (board freshGame)) = 15"
  using fresh_create fresh_mine fresh_board_facts(6) by (simp add: NUM_MINES_def)

subsection \<open>Revealed and flagged\<close>

text \<open>
  Claim C2, as the code has it. In every reachable state of a game in progress (neither
  lost nor won) no tile of the board is both revealed and flagged: \<open>revealTile\<close> skips
  flagged tiles and the flag toggle skips revealed ones. In every reachable state of a game
  that is lost or won every tile of the board is revealed, the flagged ones too: the click
  that ends the game installs the board of \<open>revealBoard\<close>, and no handler changes it
  until the reset.
\<close>

theorem revealed_and_flagged:
  assumes "reachable s st"
  shows "(\<not> isGameOver st \<and> \<not> isGameWon st \<longrightarrow> noRevealedFlag s (board st))
    \<and> (isGameOver st \<or> isGameWon st \<longrightarrow> allRevealed s (board st))"
  using reachable_gameInv[OF assms] reachable_endInv[OF assms]
  by (simp add: gameInv_def endInv_def)

text \<open>Two instances from the sample game. After a right click on the mine at \<open>(0, 0)\<close>
  and a left click on its neighbour \<open>(0, 1)\<close> the game is in progress with one tile
  flagged and another revealed; after a left click on the flagged mine instead, the game
  is lost.\<close>

theorem revealed_and_flagged_witness:
  "reachable playedStore playedGame
   \<and> \<not> isGameOver playedGame \<and> \<not> isGameWon playedGame
   \<and> isFlagged (cell playedStore (board playedGame) 0 0)
   \<and> isRevealed (cell playedStore (board playedGame) 0 1)
   \<and> noRevealedFlag playedStore (board playedGame)
   \<and> reachable lostStore lostGame \<and> isGameOver lostGame
   \<and> allRevealed lostStore (board lostGame)"
proof -
  from revealed_and_flagged[OF reachable_played] played_facts(2,3)
  have a: "noRevealedFlag playedStore (board playedGame)" by simp
  from revealed_and_flagged[OF reachable_lost] lost_facts(2)
  have b: "allRevealed lostStore (board lostGame)" by simp
  from reachable_played played_facts(2,3,4,5) a reachable_lost lost_facts(2) b
  show ?thesis by simp
qed

text \<open>\<open>revealBoard\<close>, applied on a loss and on a win, sets \<open>isRevealed\<close> on every tile and
  keeps the flags: in the sample game, flag the mine at \<open>(0, 0)\<close> and click it; the state
  reached is lost and its tile \<open>(0, 0)\<close> is both revealed and flagged.\<close>

theorem terminal_revealed_flag:
  "reachable lostStore lostGame \<and> isGameOver lostGame
   \<and> isRevealed (cell lostStore (board lostGame) 0 0)
   \<and> isFlagged (cell lostStore (board lostGame) 0 0)"
proof -
  have "reachable flaggedStore flaggedGame"
    using reachable_fresh fresh_tileAt flagged_facts(1) by (rule reachable.flag)
  moreover have "tileAt (board flaggedGame) 0 0 = Some (board freshGame ! 0 ! 0)"
    using fresh_tileAt by (simp add: flagged_facts(3))
  ultimately have "reachable lostStore lostGame"
    using lost_facts(1) by (rule reachable.click)
  then show ?thesis using lost_facts(2,3) by simp
qed

subsection \<open>The first click\<close>

text \<open>
  Claim C3 at two concrete states. In the game installed from the sample draws nothing is
  revealed yet and \<open>createEmptyBoard\<close> has already placed the mines, so the test for a
  board without mines fails, \<open>placeMines\<close> is not called, and the first click, on the mine
  at \<open>(0, 0)\<close>, loses the game. On the blank board, where the test holds, \<open>placeMines\<close>
  and \<open>calculateAdjacentMines\<close> run and their board is passed to \<^verbatim>\<open>setBoard\<close>, but the
  reveal is of \<^verbatim>\<open>board\<close>, the board of the render, and the later \<^verbatim>\<open>setBoard(newBoard)\<close>
  replaces the board with the mines: the board of the next state holds no mine.
\<close>

theorem first_click_not_safe:
  "handleReset sampleDraws emptyStore = Inr ([], freshStore, freshGame)
   \<and> list_all (\<lambda>a. \<not> isRevealed (tiles freshStore a)) (concat (board freshGame))
   \<and> isMine (cell freshStore (board freshGame) 0 0)
   \<and> handleTileClick [] freshStore freshGame 0 0 = Inr ([], firstClickStore, firstClickGame)
   \<and> isGameOver firstClickGame
   \<and> list_all (\<lambda>a. \<not> isMine (tiles blankStore a) \<and> \<not> isRevealed (tiles blankStore a))
        (concat (board blankGame))
   \<and> handleTileClick moreDraws blankStore blankGame 0 0 = Inr ([], staleStore, staleGame)
   \<and> list_all (\<lambda>a. \<not> isMine (tiles staleStore a)) (concat (board staleGame))"
  using fresh_reset fresh_none_revealed fresh_mine first_click_facts
    blank_first stale_click stale_board(1) by simp

end
